theory Spec2Isabelle
  imports Main "HOL-Library.Word" "HOL-Library.Finite_Map"
begin

section \<open>The deque of deque/deque.h over an explicit store\<close>

text \<open>
  \<^verbatim>\<open>deque_t<elemType, memoryAllocator = simple_allocator_t>\<close> is a doubly linked chain of
  \<^verbatim>\<open>node_t\<close> blocks obtained from \<^verbatim>\<open>malloc\<close>. The model keeps the blocks in a store indexed by
  address and the deque objects in a store indexed by object identity, so that two deques
  (or a deque and itself) handed to one member function share memory exactly as in C++.
  A null pointer is \<open>None\<close>.
\<close>

type_synonym addr = nat
type_synonym obj = nat

text \<open>\<^verbatim>\<open>struct node_t { elemType value; node_t* prev; node_t* next; }\<close>\<close>

record 'a node_t =
  val :: 'a
  prev :: "addr option"
  "next" :: "addr option"

text \<open>
  \<^verbatim>\<open>node_t* head; node_t* tail; unsigned int size; memoryAllocator allocator;\<close>
  The allocator member \<^verbatim>\<open>simple_allocator_t\<close> has no data members: the instance is
  identified by the deque object that contains it, so it needs no field of its own.
  \<^verbatim>\<open>unsigned int\<close> is a 32-bit word; \<open>+\<close> and \<open>-\<close> on it wrap around.
\<close>

record deque_t =
  head :: "addr option"
  tail :: "addr option"
  size_d :: "32 word"

text \<open>
  What a call can end with besides returning. \<open>EmptyContainer\<close> is
  \<^verbatim>\<open>throw exception("Deque is empty")\<close>, \<open>InvalidIterator\<close> is
  \<^verbatim>\<open>throw exception("Try to use end iterator")\<close>. \<open>NullDereference\<close> and
  \<open>DanglingPointer\<close> are the undefined behaviour of reading or writing through a null
  pointer or through a pointer to a block (or object) that is not live.
  \<open>UnconstructedValue\<close> is the undefined behaviour of assigning to a value of class type
  on which no constructor has run. \<open>OutOfMemory\<close> is the error kind the specification
  names; no statement of the source raises it.
\<close>

datatype error =
  EmptyContainer | InvalidIterator | OutOfMemory | NullDereference | DanglingPointer |
  UnconstructedValue

text \<open>
  The store. \<open>nodes\<close> holds the live node blocks, \<open>deques\<close> the constructed deque
  objects. \<open>avail\<close> stands for the C library: it lists the blocks \<^verbatim>\<open>malloc\<close> is going to
  hand out, in order; a listed block that is live at the time of the call is passed over,
  and \<^verbatim>\<open>malloc\<close> returns null once the list is used up.
  \<open>made_by\<close> and \<open>released\<close> record, for each block, the allocator instance whose
  \<^verbatim>\<open>alloc\<close> returned it, and every \<^verbatim>\<open>dealloc\<close> call as (block, instance that allocated it,
  instance whose \<^verbatim>\<open>dealloc\<close> was called); the program never reads them.

  \<open>trivial_elem\<close> describes the template argument \<^verbatim>\<open>elemType\<close> the program is compiled
  with: whether it is a trivially copyable type (\<^verbatim>\<open>int\<close>, a pointer, a plain struct of
  such) or a class type with an assignment operator of its own (\<^verbatim>\<open>std::string\<close>). No
  operation changes it. It matters in one place only: the source never constructs the
  \<^verbatim>\<open>value\<close> of a node (a node is a cast \<^verbatim>\<open>malloc\<close> block, there is no placement
  \<^verbatim>\<open>new\<close>) and never destroys it, so that \<^verbatim>\<open>tmp->value = elem\<close> is a plain copy into the
  block for a trivially copyable type and the assignment operator applied to raw memory
  for a class type.
\<close>

record 'a state =
  trivial_elem :: bool
  deques :: "obj \<rightharpoonup> deque_t"
  nodes :: "(addr, 'a node_t) fmap"
  avail :: "addr list"
  made_by :: "addr \<rightharpoonup> obj"
  released :: "(addr \<times> obj option \<times> obj) list"

type_synonym 'a outcome = "(error \<times> 'a state) + 'a state"

subsection \<open>allocator.h\<close>

text \<open>
  \<^verbatim>\<open>void* alloc(size_t size) override { return malloc(size); }\<close>
  The result is null when \<^verbatim>\<open>malloc\<close> fails; nothing is thrown.
\<close>

definition alloc :: "obj \<Rightarrow> 'a state \<Rightarrow> addr option \<times> 'a state" where
  "alloc this s =
     (case dropWhile (\<lambda>a. fmlookup (nodes s) a \<noteq> None) (avail s) of
        [] \<Rightarrow> (None, s\<lparr>avail := []\<rparr>)
      | a # rest \<Rightarrow> (Some a, s\<lparr>avail := rest, made_by := (made_by s)(a \<mapsto> this)\<rparr>))"

text \<open>\<^verbatim>\<open>void dealloc(void* data) override { free(data); }\<close>\<close>

definition dealloc :: "obj \<Rightarrow> addr \<Rightarrow> 'a state \<Rightarrow> 'a state" where
  "dealloc this p s =
     s\<lparr>nodes := fmdrop p (nodes s), released := released s @ [(p, made_by s p, this)]\<rparr>"

subsection \<open>Writes to the store\<close>

definition set_deque :: "obj \<Rightarrow> deque_t \<Rightarrow> 'a state \<Rightarrow> 'a state" where
  "set_deque this d s = s\<lparr>deques := (deques s)(this \<mapsto> d)\<rparr>"

definition set_node :: "addr \<Rightarrow> 'a node_t \<Rightarrow> 'a state \<Rightarrow> 'a state" where
  "set_node p n s = s\<lparr>nodes := fmupd p n (nodes s)\<rparr>"

text \<open>\<^verbatim>\<open>p->prev = v\<close> and \<^verbatim>\<open>p->next = v\<close> for a non-null \<open>p\<close>.\<close>

definition store_prev :: "addr \<Rightarrow> addr option \<Rightarrow> 'a state \<Rightarrow> 'a outcome" where
  "store_prev p v s =
     (case fmlookup (nodes s) p of
        None \<Rightarrow> Inl (DanglingPointer, s)
      | Some n \<Rightarrow> Inr (set_node p (n\<lparr>prev := v\<rparr>) s))"

definition store_next :: "addr \<Rightarrow> addr option \<Rightarrow> 'a state \<Rightarrow> 'a outcome" where
  "store_next p v s =
     (case fmlookup (nodes s) p of
        None \<Rightarrow> Inl (DanglingPointer, s)
      | Some n \<Rightarrow> Inr (set_node p (n\<lparr>next := v\<rparr>) s))"

subsection \<open>The three iterator classes\<close>

text \<open>Each holds one field, \<^verbatim>\<open>curNode\<close>.\<close>

datatype iterator = Iterator "addr option"
datatype const_iterator = Const_iterator "addr option"
datatype reverse_iterator = Reverse_iterator "addr option"

text \<open>
  \<^verbatim>\<open>iterator& operator++()\<close>: throws on a null \<^verbatim>\<open>curNode\<close>, else
  \<^verbatim>\<open>curNode = curNode->next\<close>; the result is the advanced iterator.
\<close>

fun iterator_inc :: "iterator \<Rightarrow> 'a state \<Rightarrow> error + iterator" where
  "iterator_inc (Iterator None) s = Inl InvalidIterator"
| "iterator_inc (Iterator (Some a)) s =
     (case fmlookup (nodes s) a of
        None \<Rightarrow> Inl DanglingPointer
      | Some n \<Rightarrow> Inr (Iterator (next n)))"

text \<open>
  \<^verbatim>\<open>iterator operator++(int)\<close>: the same check, then the old iterator is returned and
  the iterator itself advanced; the result is (returned copy, iterator after the call).
\<close>

fun iterator_post_inc :: "iterator \<Rightarrow> 'a state \<Rightarrow> error + iterator \<times> iterator" where
  "iterator_post_inc (Iterator None) s = Inl InvalidIterator"
| "iterator_post_inc (Iterator (Some a)) s =
     (case fmlookup (nodes s) a of
        None \<Rightarrow> Inl DanglingPointer
      | Some n \<Rightarrow> Inr (Iterator (Some a), Iterator (next n)))"

fun iterator_eq :: "iterator \<Rightarrow> iterator \<Rightarrow> bool" where
  "iterator_eq (Iterator p) (Iterator q) = (p = q)"

fun iterator_deref :: "iterator \<Rightarrow> 'a state \<Rightarrow> error + 'a" where
  "iterator_deref (Iterator None) s = Inl InvalidIterator"
| "iterator_deref (Iterator (Some a)) s =
     (case fmlookup (nodes s) a of
        None \<Rightarrow> Inl DanglingPointer
      | Some n \<Rightarrow> Inr (val n))"

fun const_iterator_inc :: "const_iterator \<Rightarrow> 'a state \<Rightarrow> error + const_iterator" where
  "const_iterator_inc (Const_iterator None) s = Inl InvalidIterator"
| "const_iterator_inc (Const_iterator (Some a)) s =
     (case fmlookup (nodes s) a of
        None \<Rightarrow> Inl DanglingPointer
      | Some n \<Rightarrow> Inr (Const_iterator (next n)))"

fun const_iterator_post_inc ::
  "const_iterator \<Rightarrow> 'a state \<Rightarrow> error + const_iterator \<times> const_iterator" where
  "const_iterator_post_inc (Const_iterator None) s = Inl InvalidIterator"
| "const_iterator_post_inc (Const_iterator (Some a)) s =
     (case fmlookup (nodes s) a of
        None \<Rightarrow> Inl DanglingPointer
      | Some n \<Rightarrow> Inr (Const_iterator (Some a), Const_iterator (next n)))"

fun const_iterator_eq :: "const_iterator \<Rightarrow> const_iterator \<Rightarrow> bool" where
  "const_iterator_eq (Const_iterator p) (Const_iterator q) = (p = q)"

fun const_iterator_deref :: "const_iterator \<Rightarrow> 'a state \<Rightarrow> error + 'a" where
  "const_iterator_deref (Const_iterator None) s = Inl InvalidIterator"
| "const_iterator_deref (Const_iterator (Some a)) s =
     (case fmlookup (nodes s) a of
        None \<Rightarrow> Inl DanglingPointer
      | Some n \<Rightarrow> Inr (val n))"

text \<open>The reverse iterator advances along \<^verbatim>\<open>prev\<close>.\<close>

fun reverse_iterator_inc :: "reverse_iterator \<Rightarrow> 'a state \<Rightarrow> error + reverse_iterator" where
  "reverse_iterator_inc (Reverse_iterator None) s = Inl InvalidIterator"
| "reverse_iterator_inc (Reverse_iterator (Some a)) s =
     (case fmlookup (nodes s) a of
        None \<Rightarrow> Inl DanglingPointer
      | Some n \<Rightarrow> Inr (Reverse_iterator (prev n)))"

fun reverse_iterator_post_inc ::
  "reverse_iterator \<Rightarrow> 'a state \<Rightarrow> error + reverse_iterator \<times> reverse_iterator" where
  "reverse_iterator_post_inc (Reverse_iterator None) s = Inl InvalidIterator"
| "reverse_iterator_post_inc (Reverse_iterator (Some a)) s =
     (case fmlookup (nodes s) a of
        None \<Rightarrow> Inl DanglingPointer
      | Some n \<Rightarrow> Inr (Reverse_iterator (Some a), Reverse_iterator (prev n)))"

fun reverse_iterator_eq :: "reverse_iterator \<Rightarrow> reverse_iterator \<Rightarrow> bool" where
  "reverse_iterator_eq (Reverse_iterator p) (Reverse_iterator q) = (p = q)"

fun reverse_iterator_deref :: "reverse_iterator \<Rightarrow> 'a state \<Rightarrow> error + 'a" where
  "reverse_iterator_deref (Reverse_iterator None) s = Inl InvalidIterator"
| "reverse_iterator_deref (Reverse_iterator (Some a)) s =
     (case fmlookup (nodes s) a of
        None \<Rightarrow> Inl DanglingPointer
      | Some n \<Rightarrow> Inr (val n))"

text \<open>\<^verbatim>\<open>begin()\<close>, \<^verbatim>\<open>end()\<close>, their const overloads, \<^verbatim>\<open>rbegin()\<close> and \<^verbatim>\<open>rend()\<close>.\<close>

definition begin_it :: "obj \<Rightarrow> 'a state \<Rightarrow> error + iterator" where
  "begin_it this s =
     (case deques s this of None \<Rightarrow> Inl DanglingPointer | Some d \<Rightarrow> Inr (Iterator (head d)))"

definition end_it :: iterator where
  "end_it = Iterator None"

definition cbegin :: "obj \<Rightarrow> 'a state \<Rightarrow> error + const_iterator" where
  "cbegin this s =
     (case deques s this of None \<Rightarrow> Inl DanglingPointer | Some d \<Rightarrow> Inr (Const_iterator (head d)))"

definition cend :: const_iterator where
  "cend = Const_iterator None"

definition rbegin :: "obj \<Rightarrow> 'a state \<Rightarrow> error + reverse_iterator" where
  "rbegin this s =
     (case deques s this of None \<Rightarrow> Inl DanglingPointer | Some d \<Rightarrow> Inr (Reverse_iterator (tail d)))"

definition rend :: reverse_iterator where
  "rend = Reverse_iterator None"

subsection \<open>Inspection\<close>

definition IsEmpty :: "obj \<Rightarrow> 'a state \<Rightarrow> error + bool" where
  "IsEmpty this s =
     (case deques s this of None \<Rightarrow> Inl DanglingPointer | Some d \<Rightarrow> Inr (head d = None))"

definition Size :: "obj \<Rightarrow> 'a state \<Rightarrow> error + 32 word" where
  "Size this s =
     (case deques s this of None \<Rightarrow> Inl DanglingPointer | Some d \<Rightarrow> Inr (size_d d))"

text \<open>\<^verbatim>\<open>if (!head) throw exception("Deque is empty"); return head->value;\<close>\<close>

definition PeekHead :: "obj \<Rightarrow> 'a state \<Rightarrow> error + 'a" where
  "PeekHead this s =
     (case deques s this of
        None \<Rightarrow> Inl DanglingPointer
      | Some d \<Rightarrow>
          (case head d of
             None \<Rightarrow> Inl EmptyContainer
           | Some h \<Rightarrow>
               (case fmlookup (nodes s) h of
                  None \<Rightarrow> Inl DanglingPointer
                | Some n \<Rightarrow> Inr (val n))))"

definition GetFront :: "obj \<Rightarrow> 'a state \<Rightarrow> error + 'a" where
  "GetFront this s =
     (case deques s this of
        None \<Rightarrow> Inl DanglingPointer
      | Some d \<Rightarrow>
          (case head d of
             None \<Rightarrow> Inl EmptyContainer
           | Some h \<Rightarrow>
               (case fmlookup (nodes s) h of
                  None \<Rightarrow> Inl DanglingPointer
                | Some n \<Rightarrow> Inr (val n))))"

text \<open>\<^verbatim>\<open>if (!tail) throw exception("Deque is empty"); return tail->value;\<close>\<close>

definition PeekTail :: "obj \<Rightarrow> 'a state \<Rightarrow> error + 'a" where
  "PeekTail this s =
     (case deques s this of
        None \<Rightarrow> Inl DanglingPointer
      | Some d \<Rightarrow>
          (case tail d of
             None \<Rightarrow> Inl EmptyContainer
           | Some t \<Rightarrow>
               (case fmlookup (nodes s) t of
                  None \<Rightarrow> Inl DanglingPointer
                | Some n \<Rightarrow> Inr (val n))))"

definition GetBack :: "obj \<Rightarrow> 'a state \<Rightarrow> error + 'a" where
  "GetBack this s =
     (case deques s this of
        None \<Rightarrow> Inl DanglingPointer
      | Some d \<Rightarrow>
          (case tail d of
             None \<Rightarrow> Inl EmptyContainer
           | Some t \<Rightarrow>
               (case fmlookup (nodes s) t of
                  None \<Rightarrow> Inl DanglingPointer
                | Some n \<Rightarrow> Inr (val n))))"

subsection \<open>Insertion\<close>

text \<open>
  \<^verbatim>\<open>void PushFront(elemType const& elem)\<close>:
  \<^verbatim>\<open>node_t* tmp = (node_t*)allocator.alloc(sizeof(node_t));\<close>
  \<^verbatim>\<open>tmp->value = elem; tmp->next = head; tmp->prev = nullptr;\<close>
  \<^verbatim>\<open>if (head) head->prev = tmp;\<close>
  \<^verbatim>\<open>head = tmp; if (tail == nullptr) tail = head; size++;\<close>
  The result of \<^verbatim>\<open>alloc\<close> is not tested: the first write goes through \<open>tmp\<close> whatever it is.
  That first write is the assignment to \<^verbatim>\<open>tmp->value\<close>, which no constructor has run on.
\<close>

definition PushFront :: "obj \<Rightarrow> 'a \<Rightarrow> 'a state \<Rightarrow> 'a outcome" where
  "PushFront this elem s =
     (case deques s this of
        None \<Rightarrow> Inl (DanglingPointer, s)
      | Some d \<Rightarrow>
          (case alloc this s of
             (None, s1) \<Rightarrow> Inl (NullDereference, s1)
           | (Some tmp, s1) \<Rightarrow>
               if \<not> trivial_elem s1 then Inl (UnconstructedValue, s1)
               else
               (case (case head d of
                        None \<Rightarrow> Inr (set_node tmp \<lparr>val = elem, prev = None, next = head d\<rparr> s1)
                      | Some h \<Rightarrow>
                          store_prev h (Some tmp)
                            (set_node tmp \<lparr>val = elem, prev = None, next = head d\<rparr> s1)) of
                  Inl e \<Rightarrow> Inl e
                | Inr s2 \<Rightarrow>
                    Inr (set_deque this
                          \<lparr>head = Some tmp,
                           tail = (if tail d = None then Some tmp else tail d),
                           size_d = size_d d + 1\<rparr> s2))))"

text \<open>
  \<^verbatim>\<open>void PushFront(elemType&& elem)\<close> has the same body with
  \<^verbatim>\<open>tmp->value = std::move(elem)\<close>.
\<close>

definition PushFront_move :: "obj \<Rightarrow> 'a \<Rightarrow> 'a state \<Rightarrow> 'a outcome" where
  "PushFront_move this elem s =
     (case deques s this of
        None \<Rightarrow> Inl (DanglingPointer, s)
      | Some d \<Rightarrow>
          (case alloc this s of
             (None, s1) \<Rightarrow> Inl (NullDereference, s1)
           | (Some tmp, s1) \<Rightarrow>
               if \<not> trivial_elem s1 then Inl (UnconstructedValue, s1)
               else
               (case (case head d of
                        None \<Rightarrow> Inr (set_node tmp \<lparr>val = elem, prev = None, next = head d\<rparr> s1)
                      | Some h \<Rightarrow>
                          store_prev h (Some tmp)
                            (set_node tmp \<lparr>val = elem, prev = None, next = head d\<rparr> s1)) of
                  Inl e \<Rightarrow> Inl e
                | Inr s2 \<Rightarrow>
                    Inr (set_deque this
                          \<lparr>head = Some tmp,
                           tail = (if tail d = None then Some tmp else tail d),
                           size_d = size_d d + 1\<rparr> s2))))"

text \<open>
  \<^verbatim>\<open>void PushBack(elemType const& elem)\<close>:
  \<^verbatim>\<open>node_t* tmp = (node_t*)allocator.alloc(sizeof(node_t));\<close>
  \<^verbatim>\<open>tmp->value = elem; tmp->next = nullptr; tmp->prev = tail;\<close>
  \<^verbatim>\<open>if (tail) tail->next = tmp;\<close>
  \<^verbatim>\<open>tail = tmp; if (head == nullptr) head = tail; size++;\<close>
\<close>

definition PushBack :: "obj \<Rightarrow> 'a \<Rightarrow> 'a state \<Rightarrow> 'a outcome" where
  "PushBack this elem s =
     (case deques s this of
        None \<Rightarrow> Inl (DanglingPointer, s)
      | Some d \<Rightarrow>
          (case alloc this s of
             (None, s1) \<Rightarrow> Inl (NullDereference, s1)
           | (Some tmp, s1) \<Rightarrow>
               if \<not> trivial_elem s1 then Inl (UnconstructedValue, s1)
               else
               (case (case tail d of
                        None \<Rightarrow> Inr (set_node tmp \<lparr>val = elem, prev = tail d, next = None\<rparr> s1)
                      | Some t \<Rightarrow>
                          store_next t (Some tmp)
                            (set_node tmp \<lparr>val = elem, prev = tail d, next = None\<rparr> s1)) of
                  Inl e \<Rightarrow> Inl e
                | Inr s2 \<Rightarrow>
                    Inr (set_deque this
                          \<lparr>head = (if head d = None then Some tmp else head d),
                           tail = Some tmp,
                           size_d = size_d d + 1\<rparr> s2))))"

definition PushBack_move :: "obj \<Rightarrow> 'a \<Rightarrow> 'a state \<Rightarrow> 'a outcome" where
  "PushBack_move this elem s =
     (case deques s this of
        None \<Rightarrow> Inl (DanglingPointer, s)
      | Some d \<Rightarrow>
          (case alloc this s of
             (None, s1) \<Rightarrow> Inl (NullDereference, s1)
           | (Some tmp, s1) \<Rightarrow>
               if \<not> trivial_elem s1 then Inl (UnconstructedValue, s1)
               else
               (case (case tail d of
                        None \<Rightarrow> Inr (set_node tmp \<lparr>val = elem, prev = tail d, next = None\<rparr> s1)
                      | Some t \<Rightarrow>
                          store_next t (Some tmp)
                            (set_node tmp \<lparr>val = elem, prev = tail d, next = None\<rparr> s1)) of
                  Inl e \<Rightarrow> Inl e
                | Inr s2 \<Rightarrow>
                    Inr (set_deque this
                          \<lparr>head = (if head d = None then Some tmp else head d),
                           tail = Some tmp,
                           size_d = size_d d + 1\<rparr> s2))))"

subsection \<open>Removal\<close>

text \<open>
  \<^verbatim>\<open>void PopFront()\<close>:
  \<^verbatim>\<open>if (head == nullptr) throw exception("Deque is empty");\<close>
  \<^verbatim>\<open>node_t* tmp = head; head = head->next; allocator.dealloc((void*)tmp);\<close>
  \<^verbatim>\<open>if (head == nullptr) tail = nullptr; else head->prev = nullptr;\<close>
  \<^verbatim>\<open>size--;\<close>
\<close>

definition PopFront :: "obj \<Rightarrow> 'a state \<Rightarrow> 'a outcome" where
  "PopFront this s =
     (case deques s this of
        None \<Rightarrow> Inl (DanglingPointer, s)
      | Some d \<Rightarrow>
          (case head d of
             None \<Rightarrow> Inl (EmptyContainer, s)
           | Some tmp \<Rightarrow>
               (case fmlookup (nodes s) tmp of
                  None \<Rightarrow> Inl (DanglingPointer, s)
                | Some n \<Rightarrow>
                    (case next n of
                       None \<Rightarrow>
                         Inr (set_deque this
                               \<lparr>head = None, tail = None, size_d = size_d d - 1\<rparr>
                               (dealloc this tmp s))
                     | Some h \<Rightarrow>
                         (case store_prev h None (dealloc this tmp s) of
                            Inl e \<Rightarrow> Inl e
                          | Inr s2 \<Rightarrow>
                              Inr (set_deque this
                                    \<lparr>head = Some h, tail = tail d, size_d = size_d d - 1\<rparr>
                                    s2))))))"

text \<open>
  \<^verbatim>\<open>void PopBack()\<close>:
  \<^verbatim>\<open>if (tail == nullptr) throw exception("Deque is empty");\<close>
  \<^verbatim>\<open>node_t* tmp = tail; tail = tail->prev; allocator.dealloc((void*)tmp);\<close>
  \<^verbatim>\<open>if (tail == nullptr) head = nullptr; else tail->next = nullptr;\<close>
  \<^verbatim>\<open>size--;\<close>
\<close>

definition PopBack :: "obj \<Rightarrow> 'a state \<Rightarrow> 'a outcome" where
  "PopBack this s =
     (case deques s this of
        None \<Rightarrow> Inl (DanglingPointer, s)
      | Some d \<Rightarrow>
          (case tail d of
             None \<Rightarrow> Inl (EmptyContainer, s)
           | Some tmp \<Rightarrow>
               (case fmlookup (nodes s) tmp of
                  None \<Rightarrow> Inl (DanglingPointer, s)
                | Some n \<Rightarrow>
                    (case prev n of
                       None \<Rightarrow>
                         Inr (set_deque this
                               \<lparr>head = None, tail = None, size_d = size_d d - 1\<rparr>
                               (dealloc this tmp s))
                     | Some t \<Rightarrow>
                         (case store_next t None (dealloc this tmp s) of
                            Inl e \<Rightarrow> Inl e
                          | Inr s2 \<Rightarrow>
                              Inr (set_deque this
                                    \<lparr>head = head d, tail = Some t, size_d = size_d d - 1\<rparr>
                                    s2))))))"

text \<open>
  \<^verbatim>\<open>void Clear(void) { while (head) PopBack(); }\<close>
  Every successful \<^verbatim>\<open>PopBack\<close> releases a live block, so the loop ends.
\<close>

lemma nodes_set_deque: "nodes (set_deque this d s) = nodes s"
  by (simp add: set_deque_def)

lemma dealloc_fewer_nodes:
  assumes "fmlookup (nodes s) p = Some n"
  shows "card (fmdom' (nodes (dealloc this p s))) < card (fmdom' (nodes s))"
proof -
  from assms have "p \<in> fmdom' (nodes s)"
    by (simp add: fmdom'I)
  then have "card (fmdom' (nodes s) - {p}) < card (fmdom' (nodes s))"
    by (rule card_Diff1_less [OF finite_fmdom'])
  moreover have "nodes (dealloc this p s) = fmdrop p (nodes s)"
    by (simp add: dealloc_def)
  ultimately show ?thesis
    by (simp only: fmdom'_drop)
qed

lemma store_next_same_dom:
  assumes "store_next p v s = Inr s'"
  shows "fmdom' (nodes s') = fmdom' (nodes s)"
proof (cases "fmlookup (nodes s) p")
  case None
  with assms show ?thesis by (simp add: store_next_def)
next
  case (Some n)
  then have "p \<in> fmdom' (nodes s)" by (simp add: fmdom'I)
  with assms Some show ?thesis
    by (auto simp: store_next_def set_node_def)
qed

lemma PopBack_fewer_nodes:
  assumes "PopBack this s = Inr s'"
  shows "card (fmdom' (nodes s')) < card (fmdom' (nodes s))"
proof -
  from assms obtain d tmp n where d: "deques s this = Some d" and t: "tail d = Some tmp"
    and n: "fmlookup (nodes s) tmp = Some n"
    by (auto simp: PopBack_def split: option.splits)
  show ?thesis
  proof (cases "prev n")
    case None
    with assms d t n have "nodes s' = nodes (dealloc this tmp s)"
      by (auto simp: PopBack_def nodes_set_deque)
    with dealloc_fewer_nodes [OF n] show ?thesis by simp
  next
    case (Some q)
    with assms d t n obtain s2 where s2: "store_next q None (dealloc this tmp s) = Inr s2"
      and "nodes s' = nodes s2"
      by (auto simp: PopBack_def nodes_set_deque split: sum.splits)
    with store_next_same_dom [OF s2] dealloc_fewer_nodes [OF n] show ?thesis by simp
  qed
qed

function Clear :: "obj \<Rightarrow> 'a state \<Rightarrow> 'a outcome" where
  "Clear this s =
     (case deques s this of
        None \<Rightarrow> Inl (DanglingPointer, s)
      | Some d \<Rightarrow>
          (if head d \<noteq> None
           then (case PopBack this s of Inl e \<Rightarrow> Inl e | Inr s' \<Rightarrow> Clear this s')
           else Inr s))"
  by pat_completeness auto
termination
  by (relation "measure (\<lambda>(this, s). card (fmdom' (nodes s)))")
     (auto simp: PopBack_fewer_nodes)

subsection \<open>Construction, assignment, destruction\<close>

text \<open>\<^verbatim>\<open>deque_t() : head(nullptr), tail(nullptr), size(0) {}\<close>\<close>

definition deque_t_default :: "obj \<Rightarrow> 'a state \<Rightarrow> 'a state" where
  "deque_t_default this s = set_deque this \<lparr>head = None, tail = None, size_d = 0\<rparr> s"

text \<open>
  \<^verbatim>\<open>deque_t(std::initializer_list<elemType> list)\<close>: the same initialisation, then
  \<^verbatim>\<open>for (auto& l : list) PushBack(l);\<close>
\<close>

fun PushBack_each :: "obj \<Rightarrow> 'a list \<Rightarrow> 'a state \<Rightarrow> 'a outcome" where
  "PushBack_each this [] s = Inr s"
| "PushBack_each this (l # list) s =
     (case PushBack this l s of Inl e \<Rightarrow> Inl e | Inr s' \<Rightarrow> PushBack_each this list s')"

definition deque_t_list :: "obj \<Rightarrow> 'a list \<Rightarrow> 'a state \<Rightarrow> 'a outcome" where
  "deque_t_list this list s = PushBack_each this list (deque_t_default this s)"

text \<open>
  \<^verbatim>\<open>for (auto& d : deque) PushBack(d);\<close> over a \<^verbatim>\<open>deque_t const&\<close>: the range-for runs
  a \<^verbatim>\<open>const_iterator\<close> from \<^verbatim>\<open>deque.begin()\<close> until it equals \<^verbatim>\<open>deque.end()\<close>, and
  advances it with the prefix \<^verbatim>\<open>++\<close> after each \<^verbatim>\<open>PushBack\<close>. Each round that goes on
  has taken a block from \<^verbatim>\<open>malloc\<close>, whose supply is finite.
\<close>

lemma alloc_shorter:
  assumes "alloc this s = (Some a, s1)"
  shows "length (avail s1) < length (avail s)"
proof -
  from assms obtain rest where r: "dropWhile (\<lambda>a. fmlookup (nodes s) a \<noteq> None) (avail s) = a # rest"
    and "avail s1 = rest"
    by (auto simp: alloc_def split: list.splits)
  moreover have "length (dropWhile (\<lambda>a. fmlookup (nodes s) a \<noteq> None) (avail s)) \<le> length (avail s)"
    by (rule length_dropWhile_le)
  ultimately show ?thesis by simp
qed

lemma avail_store_next: "store_next p v s = Inr s' \<Longrightarrow> avail s' = avail s"
  by (auto simp: store_next_def set_node_def split: option.splits)

lemma PushBack_shorter:
  assumes "PushBack this elem s = Inr s'"
  shows "length (avail s') < length (avail s)"
proof -
  from assms obtain d where d: "deques s this = Some d"
    by (auto simp: PushBack_def split: option.splits)
  obtain r s1 where a: "alloc this s = (r, s1)"
    by (cases "alloc this s")
  with assms d obtain tmp where r: "r = Some tmp"
    by (cases r) (auto simp: PushBack_def)
  with assms d a have tr: "trivial_elem s1"
    by (auto simp: PushBack_def split: if_splits)
  have "avail s' = avail s1"
  proof (cases "tail d")
    case None
    with assms d a r tr show ?thesis
      by (auto simp: PushBack_def set_deque_def set_node_def)
  next
    case (Some t)
    with assms d a r tr obtain s2
      where "store_next t (Some tmp) (set_node tmp \<lparr>val = elem, prev = tail d, next = None\<rparr> s1) = Inr s2"
        and "avail s' = avail s2"
      by (auto simp: PushBack_def set_deque_def split: sum.splits)
    then show ?thesis
      by (auto simp: set_node_def dest: avail_store_next)
  qed
  with alloc_shorter a r show ?thesis by fastforce
qed

function PushBack_range :: "obj \<Rightarrow> const_iterator \<Rightarrow> 'a state \<Rightarrow> 'a outcome" where
  "PushBack_range this it s =
     (if const_iterator_eq it cend then Inr s
      else (case const_iterator_deref it s of
              Inl e \<Rightarrow> Inl (e, s)
            | Inr d \<Rightarrow>
                (case PushBack this d s of
                   Inl e \<Rightarrow> Inl e
                 | Inr s' \<Rightarrow>
                     (case const_iterator_inc it s' of
                        Inl e \<Rightarrow> Inl (e, s')
                      | Inr it' \<Rightarrow> PushBack_range this it' s'))))"
  by pat_completeness auto
termination
  by (relation "measure (\<lambda>(this, it, s). length (avail s))")
     (auto simp: PushBack_shorter)

definition PushBack_all :: "obj \<Rightarrow> obj \<Rightarrow> 'a state \<Rightarrow> 'a outcome" where
  "PushBack_all this deque s =
     (case cbegin deque s of
        Inl e \<Rightarrow> Inl (e, s)
      | Inr it \<Rightarrow> PushBack_range this it s)"

text \<open>
  \<^verbatim>\<open>deque_t(deque_t const& deque) : head(nullptr), tail(nullptr), size(0)\<close>
  \<^verbatim>\<open>{ for (auto& d : deque) PushBack(d); }\<close>
\<close>

definition deque_t_copy :: "obj \<Rightarrow> obj \<Rightarrow> 'a state \<Rightarrow> 'a outcome" where
  "deque_t_copy this deque s = PushBack_all this deque (deque_t_default this s)"

text \<open>
  \<^verbatim>\<open>deque_t(deque_t&& deque)\<close>:
  \<^verbatim>\<open>head = deque.head; tail = deque.tail; size = deque.size;\<close>
  \<^verbatim>\<open>deque.head = nullptr; deque.tail = nullptr; deque.size = 0;\<close>
  The allocator member is not mentioned: the new object gets an instance of its own.
\<close>

definition deque_t_move :: "obj \<Rightarrow> obj \<Rightarrow> 'a state \<Rightarrow> 'a outcome" where
  "deque_t_move this deque s =
     (case deques s deque of
        None \<Rightarrow> Inl (DanglingPointer, s)
      | Some d \<Rightarrow>
          Inr (set_deque deque \<lparr>head = None, tail = None, size_d = 0\<rparr>
                (set_deque this \<lparr>head = head d, tail = tail d, size_d = size_d d\<rparr> s)))"

text \<open>\<^verbatim>\<open>void operator=(deque_t const& deque) { Clear(); for (auto& d : deque) PushBack(d); }\<close>\<close>

definition assign_copy :: "obj \<Rightarrow> obj \<Rightarrow> 'a state \<Rightarrow> 'a outcome" where
  "assign_copy this deque s =
     (case Clear this s of
        Inl e \<Rightarrow> Inl e
      | Inr s1 \<Rightarrow> PushBack_all this deque s1)"

text \<open>
  \<^verbatim>\<open>void operator=(deque_t&& deque)\<close>: \<^verbatim>\<open>Clear();\<close> and then the six assignments of the
  move constructor.
\<close>

definition assign_move :: "obj \<Rightarrow> obj \<Rightarrow> 'a state \<Rightarrow> 'a outcome" where
  "assign_move this deque s =
     (case Clear this s of
        Inl e \<Rightarrow> Inl e
      | Inr s1 \<Rightarrow>
          (case deques s1 deque of
             None \<Rightarrow> Inl (DanglingPointer, s1)
           | Some d \<Rightarrow>
               Inr (set_deque deque \<lparr>head = None, tail = None, size_d = 0\<rparr>
                     (set_deque this \<lparr>head = head d, tail = tail d, size_d = size_d d\<rparr> s1))))"

text \<open>\<^verbatim>\<open>~deque_t() { Clear(); }\<close>, after which the object is gone.\<close>

definition destroy :: "obj \<Rightarrow> 'a state \<Rightarrow> 'a outcome" where
  "destroy this s =
     (case Clear this s of
        Inl e \<Rightarrow> Inl e
      | Inr s1 \<Rightarrow> Inr (s1\<lparr>deques := (deques s1)(this := None)\<rparr>))"

subsection \<open>Merge\<close>

text \<open>
  \<^verbatim>\<open>deque_t& AddOtherDeque(deque_t const& deque)\<close>:
  \<^verbatim>\<open>for (auto& d : deque) PushBack(d); return *this;\<close>
\<close>

definition AddOtherDeque :: "obj \<Rightarrow> obj \<Rightarrow> 'a state \<Rightarrow> 'a outcome" where
  "AddOtherDeque this deque s =
     (case deques s this of
        None \<Rightarrow> Inl (DanglingPointer, s)
      | Some d \<Rightarrow> PushBack_all this deque s)"

text \<open>
  \<^verbatim>\<open>deque_t& AddOtherDeque(deque_t&& deque)\<close>:
  \<^verbatim>\<open>if (tail == nullptr) {\<close>
  \<^verbatim>\<open>  head = deque.head; tail = deque.tail; size = deque.size;\<close>
  \<^verbatim>\<open>  deque.head = nullptr; deque.tail = nullptr; deque.size = 0;\<close>
  \<^verbatim>\<open>} else {\<close>
  \<^verbatim>\<open>  if (deque.head) {\<close>
  \<^verbatim>\<open>    tail->next = deque.head; deque.head->prev = tail;\<close>
  \<^verbatim>\<open>    tail = deque.tail; size += deque.size;\<close>
  \<^verbatim>\<open>    deque.head = nullptr; deque.tail = nullptr; deque.size = 0;\<close>
  \<^verbatim>\<open>  }\<close>
  \<^verbatim>\<open>}\<close>
  \<^verbatim>\<open>return *this;\<close>
  The fields of \<open>deque\<close> are all read before any field of either object is written, and
  \<open>deque\<close> is written last, so the result is right also when both names denote one object.
\<close>

definition AddOtherDeque_move :: "obj \<Rightarrow> obj \<Rightarrow> 'a state \<Rightarrow> 'a outcome" where
  "AddOtherDeque_move this deque s =
     (case deques s this of
        None \<Rightarrow> Inl (DanglingPointer, s)
      | Some d \<Rightarrow>
          (case deques s deque of
             None \<Rightarrow> Inl (DanglingPointer, s)
           | Some b \<Rightarrow>
               (case tail d of
                  None \<Rightarrow>
                    Inr (set_deque deque \<lparr>head = None, tail = None, size_d = 0\<rparr>
                          (set_deque this \<lparr>head = head b, tail = tail b, size_d = size_d b\<rparr> s))
                | Some t \<Rightarrow>
                    (case head b of
                       None \<Rightarrow> Inr s
                     | Some h \<Rightarrow>
                         (case store_next t (Some h) s of
                            Inl e \<Rightarrow> Inl e
                          | Inr s1 \<Rightarrow>
                              (case store_prev h (Some t) s1 of
                                 Inl e \<Rightarrow> Inl e
                               | Inr s2 \<Rightarrow>
                                   Inr (set_deque deque
                                         \<lparr>head = None, tail = None, size_d = 0\<rparr>
                                         (set_deque this
                                           \<lparr>head = head d, tail = tail b,
                                            size_d = size_d d + size_d b\<rparr> s2))))))))"

subsection \<open>Programs over deques\<close>

text \<open>
  The public operations of \<^verbatim>\<open>deque_t\<close> as calls on named objects: the four constructors,
  the two assignment operators, the member functions, and the destructor. A constructor
  call names the object it creates; on a name in use it starts a new object in that
  place, as a placement \<^verbatim>\<open>new\<close> would, and the nodes of the former one are no longer
  reachable from any deque.
\<close>

datatype 'a call =
    New obj
  | New_list obj "'a list"
  | New_copy obj obj
  | New_move obj obj
  | Assign_copy obj obj
  | Assign_move obj obj
  | Call_IsEmpty obj
  | Call_Size obj
  | Call_PeekHead obj
  | Call_GetFront obj
  | Call_PeekTail obj
  | Call_GetBack obj
  | Call_PushFront obj 'a
  | Call_PushFront_move obj 'a
  | Call_PushBack obj 'a
  | Call_PushBack_move obj 'a
  | Call_PopFront obj
  | Call_PopBack obj
  | Call_AddOtherDeque obj obj
  | Call_AddOtherDeque_move obj obj
  | Call_Clear obj
  | Delete obj

text \<open>The outcome of a function that leaves the store alone, as an outcome with a store.\<close>

definition reading :: "'a state \<Rightarrow> error + 'b \<Rightarrow> 'a outcome" where
  "reading s r = (case r of Inl e \<Rightarrow> Inl (e, s) | Inr v \<Rightarrow> Inr s)"

fun exec :: "'a call \<Rightarrow> 'a state \<Rightarrow> 'a outcome" where
  "exec (New this) s = Inr (deque_t_default this s)"
| "exec (New_list this list) s = deque_t_list this list s"
| "exec (New_copy this deque) s = deque_t_copy this deque s"
| "exec (New_move this deque) s = deque_t_move this deque s"
| "exec (Assign_copy this deque) s = assign_copy this deque s"
| "exec (Assign_move this deque) s = assign_move this deque s"
| "exec (Call_IsEmpty this) s = reading s (IsEmpty this s)"
| "exec (Call_Size this) s = reading s (Size this s)"
| "exec (Call_PeekHead this) s = reading s (PeekHead this s)"
| "exec (Call_GetFront this) s = reading s (GetFront this s)"
| "exec (Call_PeekTail this) s = reading s (PeekTail this s)"
| "exec (Call_GetBack this) s = reading s (GetBack this s)"
| "exec (Call_PushFront this elem) s = PushFront this elem s"
| "exec (Call_PushFront_move this elem) s = PushFront_move this elem s"
| "exec (Call_PushBack this elem) s = PushBack this elem s"
| "exec (Call_PushBack_move this elem) s = PushBack_move this elem s"
| "exec (Call_PopFront this) s = PopFront this s"
| "exec (Call_PopBack this) s = PopBack this s"
| "exec (Call_AddOtherDeque this deque) s = AddOtherDeque this deque s"
| "exec (Call_AddOtherDeque_move this deque) s = AddOtherDeque_move this deque s"
| "exec (Call_Clear this) s = Clear this s"
| "exec (Delete this) s = destroy this s"

text \<open>
  A caller can catch the two exceptions and go on with the store as the throw left it;
  after undefined behaviour there is nothing to go on with.
\<close>

definition catchable :: "error \<Rightarrow> bool" where
  "catchable e \<longleftrightarrow> e = EmptyContainer \<or> e = InvalidIterator"

fun run :: "'a call list \<Rightarrow> 'a state \<Rightarrow> 'a state option" where
  "run [] s = Some s"
| "run (c # cs) s =
     (case exec c s of
        Inr s' \<Rightarrow> run cs s'
      | Inl (e, s') \<Rightarrow> if catchable e then run cs s' else None)"

text \<open>
  The store before any object exists, for a program compiled with a trivially copyable
  \<^verbatim>\<open>elemType\<close> or not, with the blocks \<^verbatim>\<open>malloc\<close> is going to hand out.
\<close>

definition initial :: "bool \<Rightarrow> addr list \<Rightarrow> 'a state" where
  "initial triv pool =
     \<lparr>trivial_elem = triv, deques = Map.empty, nodes = fmempty, avail = pool,
      made_by = Map.empty, released = []\<rparr>"

section \<open>Vocabulary of the properties\<close>

subsection \<open>Chains of nodes\<close>

text \<open>
  \<open>first\<close> and \<open>final\<close> are the pointers to the first and to the last block of a list of
  addresses, null for the empty list.
\<close>

definition first :: "addr list \<Rightarrow> addr option" where
  "first as = (case as of [] \<Rightarrow> None | a # _ \<Rightarrow> Some a)"

definition final :: "addr list \<Rightarrow> addr option" where
  "final as = (if as = [] then None else Some (last as))"

text \<open>
  \<open>dseg h p as q\<close>: in the store \<open>h\<close> the blocks \<open>as\<close> are live and linked in both
  directions in this order, the first one's \<^verbatim>\<open>prev\<close> is \<open>p\<close> and the last one's
  \<^verbatim>\<open>next\<close> is \<open>q\<close>.
\<close>

fun dseg :: "(addr, 'a node_t) fmap \<Rightarrow> addr option \<Rightarrow> addr list \<Rightarrow> addr option \<Rightarrow> bool" where
  "dseg h p [] q = True"
| "dseg h p (a # as) q =
     (case fmlookup h a of
        None \<Rightarrow> False
      | Some n \<Rightarrow> prev n = p \<and> next n = (case as of [] \<Rightarrow> q | b # _ \<Rightarrow> Some b) \<and> dseg h (Some a) as q)"

text \<open>The values stored in a list of blocks.\<close>

fun elems :: "(addr, 'a node_t) fmap \<Rightarrow> addr list \<Rightarrow> 'a list" where
  "elems h [] = []"
| "elems h (a # as) = (case fmlookup h a of None \<Rightarrow> elems h as | Some n \<Rightarrow> val n # elems h as)"

text \<open>
  \<open>owns s i as\<close>: the deque object \<open>i\<close> exists and \<open>as\<close> is its chain, front to back:
  the blocks are distinct and doubly linked with null at both ends, \<^verbatim>\<open>head\<close> and
  \<^verbatim>\<open>tail\<close> point to the first and the last one, and \<^verbatim>\<open>size\<close> is their number as an
  \<^verbatim>\<open>unsigned int\<close>.
\<close>

definition owns :: "'a state \<Rightarrow> obj \<Rightarrow> addr list \<Rightarrow> bool" where
  "owns s i as =
     (case deques s i of
        None \<Rightarrow> False
      | Some d \<Rightarrow>
          distinct as \<and> dseg (nodes s) None as None \<and>
          head d = first as \<and> tail d = final as \<and> size_d d = of_nat (length as))"

text \<open>
  \<open>changes_only A I s s'\<close>: from \<open>s\<close> to \<open>s'\<close> no deque object outside \<open>I\<close> and no
  block outside \<open>A\<close> is written, allocated or released, and the element type is the same.
\<close>

definition changes_only :: "addr set \<Rightarrow> obj set \<Rightarrow> 'a state \<Rightarrow> 'a state \<Rightarrow> bool" where
  "changes_only A I s s' \<longleftrightarrow>
     (\<forall>j. j \<notin> I \<longrightarrow> deques s' j = deques s j) \<and>
     (\<forall>a. a \<notin> A \<longrightarrow> fmlookup (nodes s') a = fmlookup (nodes s) a) \<and>
     trivial_elem s' = trivial_elem s"

subsection \<open>Blocks that \<^verbatim>\<open>malloc\<close> can still hand out\<close>

text \<open>
  \<open>stock s\<close> is the number of distinct blocks listed in \<open>avail\<close> that are not live:
  that many calls of \<^verbatim>\<open>alloc\<close> succeed if nothing is released in between.
\<close>

definition stock :: "'a state \<Rightarrow> nat" where
  "stock s = card (set (avail s) - fmdom' (nodes s))"

subsection \<open>Appending, copying, keeping apart\<close>

text \<open>
  \<open>appended s this as vs cs s'\<close>: from \<open>s\<close>, where \<open>this\<close> owned \<open>as\<close>, the values
  \<open>vs\<close> have been put into the freshly allocated blocks \<open>cs\<close> behind \<open>as\<close>, and nothing
  else has changed.
\<close>

definition appended ::
  "'a state \<Rightarrow> obj \<Rightarrow> addr list \<Rightarrow> 'a list \<Rightarrow> addr list \<Rightarrow> 'a state \<Rightarrow> bool" where
  "appended s this as vs cs s' \<longleftrightarrow>
     owns s' this (as @ cs) \<and>
     elems (nodes s') (as @ cs) = elems (nodes s) as @ vs \<and>
     length cs = length vs \<and>
     set cs \<inter> fmdom' (nodes s) = {} \<and>
     changes_only (set as \<union> set cs) {this} s s' \<and>
     (\<forall>a. a \<notin> set cs \<longrightarrow>
        map_option val (fmlookup (nodes s') a) = map_option val (fmlookup (nodes s) a)) \<and>
     fmdom' (nodes s') = fmdom' (nodes s) \<union> set cs \<and>
     (\<forall>a. made_by s' a = (if a \<in> set cs then Some this else made_by s a)) \<and>
     released s' = released s \<and>
     stock s \<le> stock s' + length vs"

text \<open>
  \<open>result_state\<close> is the store a call ends in, whether it returns or throws.
  \<open>intact s y ys r\<close>: in the store the outcome \<open>r\<close> ends in, \<open>y\<close> still owns \<open>ys\<close> with
  the values it had in \<open>s\<close>. \<open>apart s x y ys\<close>: this holds for every insertion and
  removal on \<open>x\<close> and for \<^verbatim>\<open>x.Clear()\<close>.
\<close>

definition result_state :: "'a outcome \<Rightarrow> 'a state" where
  "result_state r = (case r of Inl (e, s) \<Rightarrow> s | Inr s \<Rightarrow> s)"




subsection \<open>The structural invariant as the specification words it\<close>

text \<open>\<open>follow f h k a\<close> is the node reached from \<open>a\<close> by \<open>k\<close> steps along the link \<open>f\<close>.\<close>

fun follow ::
  "('a node_t \<Rightarrow> addr option) \<Rightarrow> (addr, 'a node_t) fmap \<Rightarrow> nat \<Rightarrow> addr \<Rightarrow> addr option" where
  "follow f h 0 a = Some a"
| "follow f h (Suc k) a =
     (case fmlookup h a of
        None \<Rightarrow> None
      | Some n \<Rightarrow> (case f n of None \<Rightarrow> None | Some b \<Rightarrow> follow f h k b))"

text \<open>
  \<^verbatim>\<open>head\<close> is null iff \<^verbatim>\<open>tail\<close> is null iff \<^verbatim>\<open>size == 0\<close>; in a non-empty deque the head's
  \<^verbatim>\<open>prev\<close> and the tail's \<^verbatim>\<open>next\<close> are null, \<^verbatim>\<open>size - 1\<close> steps along \<^verbatim>\<open>next\<close> lead from
  the head to the tail and no fewer do, and likewise along \<^verbatim>\<open>prev\<close> from the tail to the
  head.
\<close>

definition deque_inv :: "'a state \<Rightarrow> obj \<Rightarrow> bool" where
  "deque_inv s i =
     (case deques s i of
        None \<Rightarrow> False
      | Some d \<Rightarrow>
          (head d = None \<longleftrightarrow> tail d = None) \<and> (tail d = None \<longleftrightarrow> size_d d = 0) \<and>
          (case (head d, tail d) of
             (Some h, Some t) \<Rightarrow>
               (case fmlookup (nodes s) h of None \<Rightarrow> False | Some n \<Rightarrow> prev n = None) \<and>
               (case fmlookup (nodes s) t of None \<Rightarrow> False | Some n \<Rightarrow> next n = None) \<and>
               follow next (nodes s) (unat (size_d d) - 1) h = Some t \<and>
               (\<forall>k < unat (size_d d) - 1. follow next (nodes s) k h \<noteq> Some t) \<and>
               follow prev (nodes s) (unat (size_d d) - 1) t = Some h \<and>
               (\<forall>k < unat (size_d d) - 1. follow prev (nodes s) k t \<noteq> Some h)
           | _ \<Rightarrow> True))"

text \<open>
  \<open>all_own ch s\<close>: every existing deque object \<open>i\<close> owns the chain \<open>ch i\<close>, and no block is
  in two chains.
\<close>

definition all_own :: "(obj \<Rightarrow> addr list) \<Rightarrow> 'a state \<Rightarrow> bool" where
  "all_own ch s \<longleftrightarrow>
     (\<forall>i. case deques s i of None \<Rightarrow> ch i = [] | Some d \<Rightarrow> owns s i (ch i)) \<and>
     (\<forall>i j. i \<noteq> j \<longrightarrow> set (ch i) \<inter> set (ch j) = {})"

text \<open>
  \<open>own_made ch s\<close>: every block of a chain was allocated by the allocator instance of the
  deque that owns the chain, and every release so far went through the instance that had
  allocated the block.
\<close>

definition own_made :: "(obj \<Rightarrow> addr list) \<Rightarrow> 'a state \<Rightarrow> bool" where
  "own_made ch s \<longleftrightarrow>
     (\<forall>i. \<forall>a \<in> set (ch i). made_by s a = Some i) \<and>
     (\<forall>e \<in> set (released s). fst (snd e) = Some (snd (snd e)))"

text \<open>
  \<open>foreign ch s\<close>: the blocks that are in the chain of a deque whose allocator instance
  is not the one that allocated them.
\<close>

definition foreign :: "(obj \<Rightarrow> addr list) \<Rightarrow> 'a state \<Rightarrow> addr set" where
  "foreign ch s = {a. \<exists>i. a \<in> set (ch i) \<and> made_by s a \<noteq> Some i}"

text \<open>
  \<open>releases ch s s'\<close>: the \<^verbatim>\<open>dealloc\<close> calls made from \<open>s\<close> to \<open>s'\<close> were each for a block
  that was, in \<open>s\<close>, in the chain of the deque whose allocator instance was called, and
  the record of the call names the instance that had allocated the block.
\<close>

definition releases :: "(obj \<Rightarrow> addr list) \<Rightarrow> 'a state \<Rightarrow> 'a state \<Rightarrow> bool" where
  "releases ch s s' \<longleftrightarrow>
     (\<exists>new. released s' = released s @ new \<and>
        list_all (\<lambda>e. fst e \<in> set (ch (snd (snd e))) \<and> fst (snd e) = made_by s (fst e)) new)"

text \<open>
  \<open>step ch s H ch' s'\<close>: from the chains \<open>ch\<close> in \<open>s\<close> to the chains \<open>ch'\<close> in \<open>s'\<close> every
  release went through the holder's allocator instance, and a block held in \<open>s'\<close> by a
  deque that did not allocate it was so held in \<open>s\<close> or is one of \<open>H\<close>.
\<close>

definition step ::
  "(obj \<Rightarrow> addr list) \<Rightarrow> 'a state \<Rightarrow> addr set \<Rightarrow> (obj \<Rightarrow> addr list) \<Rightarrow> 'a state \<Rightarrow> bool" where
  "step ch s H ch' s' \<longleftrightarrow>
     all_own ch' s' \<and> releases ch s s' \<and> foreign ch' s' \<subseteq> foreign ch s \<union> H"

text \<open>
  The calls that hand a chain from one deque object to another, and the blocks such a
  call hands over: the chain of its source.
\<close>

fun moves_chain :: "'a call \<Rightarrow> bool" where
  "moves_chain (New_move this deque) = True"
| "moves_chain (Assign_move this deque) = True"
| "moves_chain (Call_AddOtherDeque_move this deque) = True"
| "moves_chain c = False"

fun handed_over :: "'a call \<Rightarrow> (obj \<Rightarrow> addr list) \<Rightarrow> addr set" where
  "handed_over (New_move this deque) ch = set (ch deque)"
| "handed_over (Assign_move this deque) ch = set (ch deque)"
| "handed_over (Call_AddOtherDeque_move this deque) ch = set (ch deque)"
| "handed_over c ch = {}"

subsection \<open>Stores and programs to run the operations on\<close>

text \<open>
  A store with two deque objects: object 0 holds the values
  10, 20 in the blocks 1 and 2, object 1 is empty, and \<^verbatim>\<open>malloc\<close> has the blocks 3 and 4
  left.
\<close>

definition two_nodes :: "int state" where
  "two_nodes =
     \<lparr>trivial_elem = True,
      deques = [0 \<mapsto> \<lparr>head = Some 1, tail = Some 2, size_d = 2\<rparr>,
                1 \<mapsto> \<lparr>head = None, tail = None, size_d = 0\<rparr>],
      nodes = fmupd 1 \<lparr>val = 10, prev = None, next = Some 2\<rparr>
                (fmupd 2 \<lparr>val = 20, prev = Some 1, next = None\<rparr> fmempty),
      avail = [3, 4],
      made_by = [1 \<mapsto> 0, 2 \<mapsto> 0],
      released = []\<rparr>"

text \<open>
  A second store: object 0 holds 1, 2, 3 in the blocks 1, 2, 3, object 1 holds 6, 7 in the
  blocks 4, 5, and \<^verbatim>\<open>malloc\<close> has three blocks left.
\<close>

definition three_and_two :: "int state" where
  "three_and_two =
     \<lparr>trivial_elem = True,
      deques = [0 \<mapsto> \<lparr>head = Some 1, tail = Some 3, size_d = 3\<rparr>,
                1 \<mapsto> \<lparr>head = Some 4, tail = Some 5, size_d = 2\<rparr>],
      nodes = fmupd 1 \<lparr>val = 1, prev = None, next = Some 2\<rparr>
                (fmupd 2 \<lparr>val = 2, prev = Some 1, next = Some 3\<rparr>
                (fmupd 3 \<lparr>val = 3, prev = Some 2, next = None\<rparr>
                (fmupd 4 \<lparr>val = 6, prev = None, next = Some 5\<rparr>
                (fmupd 5 \<lparr>val = 7, prev = Some 4, next = None\<rparr> fmempty)))),
      avail = [6, 7, 8],
      made_by = [1 \<mapsto> 0, 2 \<mapsto> 0, 3 \<mapsto> 0, 4 \<mapsto> 1, 5 \<mapsto> 1],
      released = []\<rparr>"



text \<open>
  Programs: the first uses every kind of call, also one that throws; the second
  never hands a chain from one deque to another; the third builds two deques and merges
  the first into the second by a move.
\<close>

definition demo :: "int call list" where
  "demo = [New_list 0 [1, 2, 3], Call_PopFront 0, Call_PushFront 0 5, New 1, Call_PopBack 1,
           New_copy 2 0, Call_AddOtherDeque_move 1 2, Call_AddOtherDeque 1 0, Assign_move 0 1]"

definition demo_copy :: "int call list" where
  "demo_copy = [New_list 0 [1, 2, 3], Call_PopFront 0, New_copy 1 0, Call_PushBack 1 9,
                Call_AddOtherDeque 0 1, Assign_copy 1 0, Call_PopBack 1, Call_Clear 0, Delete 1]"

definition demo_merge :: "int call list" where
  "demo_merge = [New_list 0 [7], New_list 1 [8], Call_AddOtherDeque_move 1 0]"

section \<open>Properties of the operations\<close>

subsection \<open>Chains of nodes\<close>

lemma first_simps [simp]: "first [] = None" "first (a # as) = Some a"
  by (simp_all add: first_def)

lemma final_simps [simp]:
  "final [] = None"
  "final (a # as) = (if as = [] then Some a else final as)"
  by (simp_all add: final_def)

lemma first_append [simp]: "first (as @ bs) = (if as = [] then first bs else first as)"
  by (cases as) simp_all

lemma final_append [simp]: "final (as @ bs) = (if bs = [] then final as else final bs)"
  by (simp add: final_def)

lemma first_hd: "as \<noteq> [] \<Longrightarrow> first as = Some (hd as)"
  by (cases as) simp_all

lemma final_last: "as \<noteq> [] \<Longrightarrow> final as = Some (last as)"
  by (simp add: final_def)

lemma first_None [simp]: "first as = None \<longleftrightarrow> as = []"
  by (cases as) simp_all

lemma final_None [simp]: "final as = None \<longleftrightarrow> as = []"
  by (simp add: final_def)

lemma dseg_live: "dseg h p as q \<Longrightarrow> a \<in> set as \<Longrightarrow> fmlookup h a \<noteq> None"
  by (induction as arbitrary: p) (auto split: option.splits)

lemma dseg_frame:
  "(\<And>a. a \<in> set as \<Longrightarrow> fmlookup h' a = fmlookup h a) \<Longrightarrow> dseg h' p as q = dseg h p as q"
  by (induction as arbitrary: p) (auto split: option.splits)

lemma elems_Cons_alt:
  "elems h (a # as) =
     (case map_option val (fmlookup h a) of None \<Rightarrow> elems h as | Some v \<Rightarrow> v # elems h as)"
  by (simp split: option.splits)

lemma elems_frame:
  "(\<And>a. a \<in> set as \<Longrightarrow> map_option val (fmlookup h' a) = map_option val (fmlookup h a)) \<Longrightarrow>
   elems h' as = elems h as"
proof (induction as)
  case Nil
  show ?case by simp
next
  case (Cons a as)
  have "map_option val (fmlookup h' a) = map_option val (fmlookup h a)"
    by (rule Cons.prems) simp
  moreover have "elems h' as = elems h as"
    by (rule Cons.IH) (simp add: Cons.prems)
  ultimately show ?case
    by (simp only: elems_Cons_alt)
qed

lemma elems_append [simp]: "elems h (as @ bs) = elems h as @ elems h bs"
  by (induction as) (auto split: option.splits)


lemma dseg_append:
  "dseg h p (as @ bs) q \<longleftrightarrow>
     dseg h p as (case bs of [] \<Rightarrow> q | b # _ \<Rightarrow> Some b) \<and>
     dseg h (case final as of None \<Rightarrow> p | Some t \<Rightarrow> Some t) bs q"
proof (induction as arbitrary: p)
  case Nil
  show ?case by simp
next
  case (Cons a as)
  show ?case
  proof (cases as)
    case Nil
    then show ?thesis by (auto simp: final_def split: option.splits list.splits)
  next
    case (Cons a' as')
    then show ?thesis
      using Cons.IH [of "Some a"] by (auto simp: final_def split: option.splits)
  qed
qed

lemma dseg_snoc:
  "dseg h p (as @ [a]) q \<longleftrightarrow>
     dseg h p as (Some a) \<and>
     (\<exists>n. fmlookup h a = Some n \<and> prev n = (case final as of None \<Rightarrow> p | Some t \<Rightarrow> Some t) \<and> next n = q)"
  by (auto simp: dseg_append split: option.splits)

text \<open>Redirecting the outgoing link of the last node, the incoming link of the first.\<close>

lemma dseg_set_next_last:
  assumes "dseg h p (as @ [a]) q" "a \<notin> set as" "fmlookup h a = Some n"
  shows "dseg (fmupd a (n\<lparr>next := q'\<rparr>) h) p (as @ [a]) q'"
proof -
  have "dseg (fmupd a (n\<lparr>next := q'\<rparr>) h) p as (Some a) = dseg h p as (Some a)"
    using assms(2) by (intro dseg_frame) auto
  with assms show ?thesis
    by (auto simp: dseg_snoc)
qed

lemma dseg_set_prev_first:
  assumes "dseg h p (a # as) q" "a \<notin> set as" "fmlookup h a = Some n"
  shows "dseg (fmupd a (n\<lparr>prev := p'\<rparr>) h) p' (a # as) q"
proof -
  have "dseg (fmupd a (n\<lparr>prev := p'\<rparr>) h) (Some a) as q = dseg h (Some a) as q"
    using assms(2) by (intro dseg_frame) auto
  with assms show ?thesis
    by auto
qed

lemma alloc_Some:
  assumes "alloc this s = (Some a, s1)"
  shows "fmlookup (nodes s) a = None" "a \<in> set (avail s)" "set (avail s1) \<subseteq> set (avail s)"
    "nodes s1 = nodes s" "deques s1 = deques s" "released s1 = released s"
    "made_by s1 = (made_by s)(a \<mapsto> this)" "trivial_elem s1 = trivial_elem s"
proof -
  let ?P = "\<lambda>a. fmlookup (nodes s) a \<noteq> None"
  from assms obtain rest where r: "dropWhile ?P (avail s) = a # rest"
    and s1: "s1 = s\<lparr>avail := rest, made_by := (made_by s)(a \<mapsto> this)\<rparr>"
    by (auto simp: alloc_def split: list.splits)
  from r have "dropWhile ?P (avail s) \<noteq> []" by simp
  then have "\<not> ?P (hd (dropWhile ?P (avail s)))"
    by (rule hd_dropWhile)
  with r show "fmlookup (nodes s) a = None" by simp
  have sub: "set (dropWhile ?P (avail s)) \<subseteq> set (avail s)"
    by (rule set_dropWhileD [THEN subsetI]) 
  with r show "a \<in> set (avail s)" by auto
  from sub r s1 show "set (avail s1) \<subseteq> set (avail s)" by auto
  from s1 show "nodes s1 = nodes s" "deques s1 = deques s" "released s1 = released s"
    "made_by s1 = (made_by s)(a \<mapsto> this)" "trivial_elem s1 = trivial_elem s" by simp_all
qed

lemma alloc_None:
  assumes "alloc this s = (None, s1)"
  shows "s1 = s\<lparr>avail := []\<rparr>"
  using assms by (auto simp: alloc_def split: list.splits)

lemma alloc_empty: "avail s = [] \<Longrightarrow> alloc this s = (None, s\<lparr>avail := []\<rparr>)"
  by (simp add: alloc_def)

subsection \<open>Insertion and removal on a deque that owns its chain\<close>

lemma PushBack_owns:
  assumes o: "owns s this as" and a: "alloc this s = (Some tmp, s1)" and tr: "trivial_elem s"
  shows "\<exists>s'. PushBack this v s = Inr s' \<and> owns s' this (as @ [tmp]) \<and>
           elems (nodes s') (as @ [tmp]) = elems (nodes s) as @ [v] \<and>
           changes_only (insert tmp (set as)) {this} s s' \<and>
           (\<forall>a. a \<noteq> tmp \<longrightarrow> map_option val (fmlookup (nodes s') a) = map_option val (fmlookup (nodes s) a)) \<and>
           fmdom' (nodes s') = insert tmp (fmdom' (nodes s)) \<and>
           made_by s' = (made_by s)(tmp \<mapsto> this) \<and> released s' = released s \<and> avail s' = avail s1"
proof -
  from o obtain d where d: "deques s this = Some d" and dist: "distinct as"
    and seg: "dseg (nodes s) None as None" and hd: "head d = first as" and tl: "tail d = final as"
    and sz: "size_d d = of_nat (length as)"
    by (auto simp: owns_def split: option.splits)
  note al = alloc_Some [OF a]
  from tr al(8) have tr1: "trivial_elem s1" by simp
  have fresh: "tmp \<notin> set as"
    using dseg_live [OF seg, of tmp] al(1) by auto
  let ?new = "\<lparr>val = v, prev = tail d, next = None\<rparr>"
  show ?thesis
  proof (cases as rule: rev_cases)
    case Nil
    with hd tl have "head d = None" "tail d = None" by simp_all
    with d a tr1 have "PushBack this v s = Inr (set_deque this \<lparr>head = Some tmp, tail = Some tmp, size_d = size_d d + 1\<rparr> (set_node tmp ?new s1))"
      by (simp add: PushBack_def)
    moreover have "owns (set_deque this \<lparr>head = Some tmp, tail = Some tmp, size_d = size_d d + 1\<rparr> (set_node tmp ?new s1)) this [tmp]"
      using sz Nil \<open>tail d = None\<close> by (simp add: owns_def set_deque_def set_node_def final_def)
    ultimately show ?thesis
      using Nil al \<open>tail d = None\<close>
      by (auto simp: changes_only_def set_deque_def set_node_def)
  next
    case (snoc bs t)
    with tl have t: "tail d = Some t" by simp
    from snoc hd have h: "head d = Some (hd as)" by (simp add: first_hd)
    from seg snoc obtain n where n: "fmlookup (nodes s) t = Some n"
      by (auto simp: dseg_snoc)
    from fresh snoc have tt: "t \<noteq> tmp" by auto
    let ?h1 = "fmupd tmp ?new (nodes s)"
    let ?h2 = "fmupd t (n\<lparr>next := Some tmp\<rparr>) ?h1"
    let ?s' = "set_deque this \<lparr>head = head d, tail = Some tmp, size_d = size_d d + 1\<rparr>
                (set_node t (n\<lparr>next := Some tmp\<rparr>) (set_node tmp ?new s1))"
    have run: "PushBack this v s = Inr ?s'"
      using d a t h n tt al(4) tr1 by (simp add: PushBack_def store_next_def set_node_def)
    have nodes': "nodes ?s' = ?h2"
      using al(4) by (simp add: set_deque_def set_node_def)
    have "dseg ?h1 None (bs @ [t]) None"
      using seg snoc fresh by (subst dseg_frame [where h = "nodes s"]) auto
    moreover have "t \<notin> set bs" using dist snoc by simp
    moreover have "fmlookup ?h1 t = Some n" using n tt by simp
    ultimately have "dseg ?h2 None (bs @ [t]) (Some tmp)"
      by (rule dseg_set_next_last)
    then have "dseg ?h2 None ((bs @ [t]) @ [tmp]) None"
      using tt t by (subst dseg_snoc) simp
    then have "owns ?s' this (as @ [tmp])"
      using snoc dist fresh hd sz nodes' by (simp add: owns_def set_deque_def)
    moreover have "elems ?h2 as = elems (nodes s) as"
      using fresh n by (intro elems_frame) auto
    then have "elems (nodes ?s') (as @ [tmp]) = elems (nodes s) as @ [v]"
      using nodes' tt by simp
    moreover have "changes_only (insert tmp (set as)) {this} s ?s'"
      using snoc al by (auto simp: changes_only_def set_deque_def set_node_def)
    moreover have "\<forall>a. a \<noteq> tmp \<longrightarrow> map_option val (fmlookup (nodes ?s') a) = map_option val (fmlookup (nodes s) a)"
      using n nodes' by auto
    moreover have "fmdom' (nodes ?s') = insert tmp (fmdom' (nodes s))"
      using n nodes' by (auto simp: fmdom'I)
    moreover have "made_by ?s' = (made_by s)(tmp \<mapsto> this)" "released ?s' = released s" "avail ?s' = avail s1"
      using al by (simp_all add: set_deque_def set_node_def)
    ultimately show ?thesis using run by simp
  qed
qed

lemma owns_D:
  assumes "owns s this as"
  obtains d where "deques s this = Some d" "distinct as" "dseg (nodes s) None as None"
    "head d = first as" "tail d = final as" "size_d d = of_nat (length as)"
  using assms by (auto simp: owns_def split: option.splits)

lemma owns_live:
  assumes "owns s this as" "a \<in> set as"
  shows "fmlookup (nodes s) a \<noteq> None"
proof -
  from assms(1) have "dseg (nodes s) None as None" by (rule owns_D)
  then show ?thesis using assms(2) by (rule dseg_live)
qed

lemma PushFront_owns:
  assumes o: "owns s this as" and a: "alloc this s = (Some tmp, s1)" and tr: "trivial_elem s"
  shows "\<exists>s'. PushFront this v s = Inr s' \<and> owns s' this (tmp # as) \<and>
           elems (nodes s') (tmp # as) = v # elems (nodes s) as \<and>
           changes_only (insert tmp (set as)) {this} s s' \<and>
           (\<forall>a. a \<noteq> tmp \<longrightarrow> map_option val (fmlookup (nodes s') a) = map_option val (fmlookup (nodes s) a)) \<and>
           fmdom' (nodes s') = insert tmp (fmdom' (nodes s)) \<and>
           made_by s' = (made_by s)(tmp \<mapsto> this) \<and> released s' = released s \<and> avail s' = avail s1"
proof -
  from o obtain d where d: "deques s this = Some d" and dist: "distinct as"
    and seg: "dseg (nodes s) None as None" and hd: "head d = first as" and tl: "tail d = final as"
    and sz: "size_d d = of_nat (length as)"
    by (rule owns_D)
  note al = alloc_Some [OF a]
  from tr al(8) have tr1: "trivial_elem s1" by simp
  have fresh: "tmp \<notin> set as"
    using dseg_live [OF seg, of tmp] al(1) by auto
  let ?new = "\<lparr>val = v, prev = None, next = head d\<rparr>"
  show ?thesis
  proof (cases as)
    case Nil
    with hd tl have "head d = None" "tail d = None" by simp_all
    with d a tr1 have "PushFront this v s = Inr (set_deque this \<lparr>head = Some tmp, tail = Some tmp, size_d = size_d d + 1\<rparr> (set_node tmp ?new s1))"
      by (simp add: PushFront_def)
    moreover have "owns (set_deque this \<lparr>head = Some tmp, tail = Some tmp, size_d = size_d d + 1\<rparr> (set_node tmp ?new s1)) this [tmp]"
      using sz Nil \<open>head d = None\<close> by (simp add: owns_def set_deque_def set_node_def)
    ultimately show ?thesis
      using Nil al \<open>head d = None\<close>
      by (auto simp: changes_only_def set_deque_def set_node_def)
  next
    case (Cons h bs)
    with hd have h: "head d = Some h" by simp
    from Cons tl have t: "tail d = Some (last as)" by (simp add: final_def)
    from seg Cons obtain n where n: "fmlookup (nodes s) h = Some n"
      by (auto split: option.splits)
    from fresh Cons have ht: "h \<noteq> tmp" by auto
    let ?h1 = "fmupd tmp ?new (nodes s)"
    let ?h2 = "fmupd h (n\<lparr>prev := Some tmp\<rparr>) ?h1"
    let ?s' = "set_deque this \<lparr>head = Some tmp, tail = tail d, size_d = size_d d + 1\<rparr>
                (set_node h (n\<lparr>prev := Some tmp\<rparr>) (set_node tmp ?new s1))"
    have run: "PushFront this v s = Inr ?s'"
      using d a t h n ht al(4) tr1 by (simp add: PushFront_def store_prev_def set_node_def)
    have nodes': "nodes ?s' = ?h2"
      using al(4) by (simp add: set_deque_def set_node_def)
    have "dseg ?h1 None (h # bs) None"
      using seg Cons fresh by (subst dseg_frame [where h = "nodes s"]) auto
    moreover have "h \<notin> set bs" using dist Cons by simp
    moreover have "fmlookup ?h1 h = Some n" using n ht by simp
    ultimately have "dseg ?h2 (Some tmp) (h # bs) None"
      by (rule dseg_set_prev_first)
    then have "dseg ?h2 None (tmp # h # bs) None"
      using ht h by simp
    then have "owns ?s' this (tmp # as)"
      using Cons dist fresh tl sz nodes' h by (simp add: owns_def set_deque_def)
    moreover have "elems ?h2 as = elems (nodes s) as"
      using fresh n by (intro elems_frame) auto
    then have "elems (nodes ?s') (tmp # as) = v # elems (nodes s) as"
      using nodes' ht by simp
    moreover have "changes_only (insert tmp (set as)) {this} s ?s'"
      using Cons al by (auto simp: changes_only_def set_deque_def set_node_def)
    moreover have "\<forall>a. a \<noteq> tmp \<longrightarrow> map_option val (fmlookup (nodes ?s') a) = map_option val (fmlookup (nodes s) a)"
      using n nodes' by auto
    moreover have "fmdom' (nodes ?s') = insert tmp (fmdom' (nodes s))"
      using n nodes' by (auto simp: fmdom'I)
    moreover have "made_by ?s' = (made_by s)(tmp \<mapsto> this)" "released ?s' = released s" "avail ?s' = avail s1"
      using al by (simp_all add: set_deque_def set_node_def)
    ultimately show ?thesis using run by simp
  qed
qed

lemma PopBack_owns:
  assumes o: "owns s this (as @ [t])"
  shows "\<exists>s'. PopBack this s = Inr s' \<and> owns s' this as \<and>
           elems (nodes s') as = elems (nodes s) as \<and>
           changes_only (insert t (set as)) {this} s s' \<and>
           (\<forall>a. a \<noteq> t \<longrightarrow> map_option val (fmlookup (nodes s') a) = map_option val (fmlookup (nodes s) a)) \<and>
           fmdom' (nodes s') = fmdom' (nodes s) - {t} \<and>
           made_by s' = made_by s \<and> released s' = released s @ [(t, made_by s t, this)] \<and>
           avail s' = avail s"
proof -
  from o obtain d where d: "deques s this = Some d" and dist: "distinct (as @ [t])"
    and seg: "dseg (nodes s) None (as @ [t]) None" and hd: "head d = first (as @ [t])"
    and tl: "tail d = final (as @ [t])" and sz: "size_d d = of_nat (length (as @ [t]))"
    by (rule owns_D)
  from tl have t: "tail d = Some t" by simp
  from seg obtain n where n: "fmlookup (nodes s) t = Some n" and pn: "prev n = final as"
    and seg': "dseg (nodes s) None as (Some t)"
    by (auto simp: dseg_snoc split: option.splits)
  from dist have tas: "t \<notin> set as" by simp
  have sz': "size_d d - 1 = of_nat (length as)" using sz by simp
  show ?thesis
  proof (cases as rule: rev_cases)
    case Nil
    let ?s' = "set_deque this \<lparr>head = None, tail = None, size_d = size_d d - 1\<rparr> (dealloc this t s)"
    from Nil pn have "prev n = None" by simp
    with d t n have "PopBack this s = Inr ?s'"
      by (simp add: PopBack_def)
    moreover have "owns ?s' this []"
      using sz' Nil by (simp add: owns_def set_deque_def)
    ultimately show ?thesis
      using Nil by (auto simp: changes_only_def set_deque_def dealloc_def)
  next
    case (snoc bs b)
    with pn have pb: "prev n = Some b" by simp
    from tas snoc have bt: "b \<noteq> t" by auto
    from seg' snoc obtain m where m: "fmlookup (nodes s) b = Some m"
      by (auto simp: dseg_snoc)
    let ?h1 = "fmdrop t (nodes s)"
    let ?h2 = "fmupd b (m\<lparr>next := None\<rparr>) ?h1"
    let ?s' = "set_deque this \<lparr>head = head d, tail = Some b, size_d = size_d d - 1\<rparr>
                 (set_node b (m\<lparr>next := None\<rparr>) (dealloc this t s))"
    have run: "PopBack this s = Inr ?s'"
      using d t n pb m bt by (simp add: PopBack_def store_next_def dealloc_def)
    have nodes': "nodes ?s' = ?h2"
      by (simp add: set_deque_def set_node_def dealloc_def)
    have "dseg ?h1 None (bs @ [b]) (Some t)"
      using seg' snoc tas by (subst dseg_frame [where h = "nodes s"]) auto
    moreover have "b \<notin> set bs" using dist snoc by simp
    moreover have "fmlookup ?h1 b = Some m" using m bt by simp
    ultimately have "dseg ?h2 None (bs @ [b]) None"
      by (rule dseg_set_next_last)
    then have "owns ?s' this as"
      using snoc dist hd sz' nodes' by (simp add: owns_def set_deque_def)
    moreover have "elems (nodes ?s') as = elems (nodes s) as"
      unfolding nodes' using tas m by (intro elems_frame) auto
    moreover have "changes_only (insert t (set as)) {this} s ?s'"
      using snoc by (auto simp: changes_only_def set_deque_def set_node_def dealloc_def)
    moreover have "\<forall>a. a \<noteq> t \<longrightarrow> map_option val (fmlookup (nodes ?s') a) = map_option val (fmlookup (nodes s) a)"
      using m nodes' by auto
    moreover have "fmdom' (nodes ?s') = fmdom' (nodes s) - {t}"
      using m bt nodes' by (auto simp: fmdom'I)
    moreover have "made_by ?s' = made_by s" "released ?s' = released s @ [(t, made_by s t, this)]"
      "avail ?s' = avail s"
      by (simp_all add: set_deque_def set_node_def dealloc_def)
    ultimately show ?thesis using run by simp
  qed
qed

lemma PopFront_owns:
  assumes o: "owns s this (h # as)"
  shows "\<exists>s'. PopFront this s = Inr s' \<and> owns s' this as \<and>
           elems (nodes s') as = elems (nodes s) as \<and>
           changes_only (insert h (set as)) {this} s s' \<and>
           (\<forall>a. a \<noteq> h \<longrightarrow> map_option val (fmlookup (nodes s') a) = map_option val (fmlookup (nodes s) a)) \<and>
           fmdom' (nodes s') = fmdom' (nodes s) - {h} \<and>
           made_by s' = made_by s \<and> released s' = released s @ [(h, made_by s h, this)] \<and>
           avail s' = avail s"
proof -
  from o obtain d where d: "deques s this = Some d" and dist: "distinct (h # as)"
    and seg: "dseg (nodes s) None (h # as) None" and hd: "head d = first (h # as)"
    and tl: "tail d = final (h # as)" and sz: "size_d d = of_nat (length (h # as))"
    by (rule owns_D)
  from hd have h: "head d = Some h" by simp
  from seg obtain n where n: "fmlookup (nodes s) h = Some n" and nn: "next n = first as"
    and seg': "dseg (nodes s) (Some h) as None"
    by (auto simp: first_def split: option.splits list.splits)
  from dist have has: "h \<notin> set as" by simp
  have sz': "size_d d - 1 = of_nat (length as)" using sz by simp
  show ?thesis
  proof (cases as)
    case Nil
    let ?s' = "set_deque this \<lparr>head = None, tail = None, size_d = size_d d - 1\<rparr> (dealloc this h s)"
    from Nil nn have "next n = None" by simp
    with d h n have "PopFront this s = Inr ?s'"
      by (simp add: PopFront_def)
    moreover have "owns ?s' this []"
      using sz' Nil by (simp add: owns_def set_deque_def)
    ultimately show ?thesis
      using Nil by (auto simp: changes_only_def set_deque_def dealloc_def)
  next
    case (Cons b bs)
    with nn have nb: "next n = Some b" by simp
    from has Cons have bh: "b \<noteq> h" by auto
    from seg' Cons obtain m where m: "fmlookup (nodes s) b = Some m"
      by (auto split: option.splits)
    from tl Cons have tl': "tail d = final as" by simp
    let ?h1 = "fmdrop h (nodes s)"
    let ?h2 = "fmupd b (m\<lparr>prev := None\<rparr>) ?h1"
    let ?s' = "set_deque this \<lparr>head = Some b, tail = tail d, size_d = size_d d - 1\<rparr>
                 (set_node b (m\<lparr>prev := None\<rparr>) (dealloc this h s))"
    have run: "PopFront this s = Inr ?s'"
      using d h n nb m bh by (simp add: PopFront_def store_prev_def dealloc_def)
    have nodes': "nodes ?s' = ?h2"
      by (simp add: set_deque_def set_node_def dealloc_def)
    have "dseg ?h1 (Some h) (b # bs) None"
      using seg' Cons has by (subst dseg_frame [where h = "nodes s"]) auto
    moreover have "b \<notin> set bs" using dist Cons by simp
    moreover have "fmlookup ?h1 b = Some m" using m bh by simp
    ultimately have "dseg ?h2 None (b # bs) None"
      by (rule dseg_set_prev_first)
    then have "owns ?s' this as"
      using Cons dist tl' sz' nodes' by (simp add: owns_def set_deque_def)
    moreover have "elems (nodes ?s') as = elems (nodes s) as"
      unfolding nodes' using has m by (intro elems_frame) auto
    moreover have "changes_only (insert h (set as)) {this} s ?s'"
      using Cons by (auto simp: changes_only_def set_deque_def set_node_def dealloc_def)
    moreover have "\<forall>a. a \<noteq> h \<longrightarrow> map_option val (fmlookup (nodes ?s') a) = map_option val (fmlookup (nodes s) a)"
      using m nodes' by auto
    moreover have "fmdom' (nodes ?s') = fmdom' (nodes s) - {h}"
      using m bh nodes' by (auto simp: fmdom'I)
    moreover have "made_by ?s' = made_by s" "released ?s' = released s @ [(h, made_by s h, this)]"
      "avail ?s' = avail s"
      by (simp_all add: set_deque_def set_node_def dealloc_def)
    ultimately show ?thesis using run by simp
  qed
qed

lemma PushBack_move_eq: "PushBack_move = PushBack"
  by (intro ext) (simp add: PushBack_move_def PushBack_def)

lemma PushFront_move_eq: "PushFront_move = PushFront"
  by (intro ext) (simp add: PushFront_move_def PushFront_def)

lemma alloc_cases:
  obtains (fail) "alloc this s = (None, s\<lparr>avail := []\<rparr>)"
  | (ok) tmp s1 where "alloc this s = (Some tmp, s1)"
proof (cases "alloc this s")
  case (Pair r s1)
  show ?thesis
  proof (cases r)
    case None
    with Pair alloc_None [of this s s1] fail show ?thesis by simp
  next
    case (Some tmp)
    with Pair ok show ?thesis by simp
  qed
qed





lemma PushBack_Inr_alloc:
  assumes "PushBack this v s = Inr s'"
  obtains tmp s1 where "alloc this s = (Some tmp, s1)" "trivial_elem s"
proof (cases "deques s this")
  case None
  with assms show ?thesis by (simp add: PushBack_def)
next
  case (Some d)
  show ?thesis
  proof (cases rule: alloc_cases [of this s])
    case fail
    with Some assms show ?thesis by (simp add: PushBack_def)
  next
    case (ok tmp s1)
    with Some assms alloc_Some(8) [OF ok] have "trivial_elem s"
      by (auto simp: PushBack_def split: if_splits)
    with ok show ?thesis by (rule that)
  qed
qed

lemma PushFront_Inr_alloc:
  assumes "PushFront this v s = Inr s'"
  obtains tmp s1 where "alloc this s = (Some tmp, s1)" "trivial_elem s"
proof (cases "deques s this")
  case None
  with assms show ?thesis by (simp add: PushFront_def)
next
  case (Some d)
  show ?thesis
  proof (cases rule: alloc_cases [of this s])
    case fail
    with Some assms show ?thesis by (simp add: PushFront_def)
  next
    case (ok tmp s1)
    with Some assms alloc_Some(8) [OF ok] have "trivial_elem s"
      by (auto simp: PushFront_def split: if_splits)
    with ok show ?thesis by (rule that)
  qed
qed

subsection \<open>A push undone by the pop at the same end\<close>

lemma nodes_restored:
  assumes ch: "changes_only A I s s2"
    and rest: "\<And>a. a \<in> A \<Longrightarrow> fmlookup (nodes s2) a = fmlookup (nodes s) a"
  shows "nodes s2 = nodes s"
  using assms by (intro fmap_ext) (auto simp: changes_only_def)



subsection \<open>Inspection and removal at the ends\<close>

lemma Peek_owns:
  assumes "owns s this as"
  shows "PeekHead this s = (case elems (nodes s) as of [] \<Rightarrow> Inl EmptyContainer | x # _ \<Rightarrow> Inr x)"
    and "PeekTail this s = (if as = [] then Inl EmptyContainer else Inr (last (elems (nodes s) as)))"
proof -
  from assms obtain d where d: "deques s this = Some d" and dist: "distinct as"
    and seg: "dseg (nodes s) None as None" and hd: "head d = first as" and tl: "tail d = final as"
    by (rule owns_D)
  show "PeekHead this s = (case elems (nodes s) as of [] \<Rightarrow> Inl EmptyContainer | x # _ \<Rightarrow> Inr x)"
    using d hd seg by (cases as) (auto simp: PeekHead_def split: option.splits)
  show "PeekTail this s = (if as = [] then Inl EmptyContainer else Inr (last (elems (nodes s) as)))"
  proof (cases as rule: rev_cases)
    case Nil
    with d tl show ?thesis by (simp add: PeekTail_def)
  next
    case (snoc bs t)
    with seg obtain n where "fmlookup (nodes s) t = Some n"
      by (auto simp: dseg_snoc)
    with snoc d tl show ?thesis by (simp add: PeekTail_def)
  qed
qed

lemma Get_eq_Peek: "GetFront = PeekHead" "GetBack = PeekTail"
  by (intro ext, simp add: GetFront_def PeekHead_def, intro ext, simp add: GetBack_def PeekTail_def)

lemma IsEmpty_owns: "owns s this as \<Longrightarrow> IsEmpty this s = Inr (as = [])"
  by (erule owns_D) (simp add: IsEmpty_def)

lemma Pop_empty:
  assumes "owns s this []"
  shows "PopFront this s = Inl (EmptyContainer, s)" "PopBack this s = Inl (EmptyContainer, s)"
  using assms by (auto elim!: owns_D simp: PopFront_def PopBack_def)

lemma IsEmpty_empty: "owns s i [] \<Longrightarrow> IsEmpty i s = Inr True"
  by (simp add: IsEmpty_owns)


subsection \<open>What an operation leaves alone\<close>

lemma changes_only_refl: "changes_only A I s s"
  by (simp add: changes_only_def)

lemma changes_only_trans:
  "changes_only A I s s1 \<Longrightarrow> changes_only B J s1 s2 \<Longrightarrow> changes_only (A \<union> B) (I \<union> J) s s2"
  by (simp add: changes_only_def)

lemma changes_only_mono:
  "changes_only A I s s' \<Longrightarrow> A \<subseteq> B \<Longrightarrow> I \<subseteq> J \<Longrightarrow> changes_only B J s s'"
  by (auto simp: changes_only_def)

lemma owns_frame:
  assumes o: "owns s j bs" and ch: "changes_only A I s s'" and j: "j \<notin> I" and d: "set bs \<inter> A = {}"
  shows "owns s' j bs" "elems (nodes s') bs = elems (nodes s) bs"
proof -
  have same: "fmlookup (nodes s') a = fmlookup (nodes s) a" if "a \<in> set bs" for a
    using that ch d by (auto simp: changes_only_def)
  then have "dseg (nodes s') None bs None = dseg (nodes s) None bs None"
    by (intro dseg_frame) simp
  moreover have "deques s' j = deques s j"
    using ch j by (simp add: changes_only_def)
  ultimately show "owns s' j bs"
    using o by (auto simp: owns_def split: option.splits)
  show "elems (nodes s') bs = elems (nodes s) bs"
    by (intro elems_frame) (simp add: same)
qed

subsection \<open>Allocation as long as blocks are left\<close>

lemma alloc_keeps:
  assumes "alloc this s = (Some a, s1)"
  shows "set (avail s) - fmdom' (nodes s) \<subseteq> insert a (set (avail s1))"
proof
  fix x
  assume x: "x \<in> set (avail s) - fmdom' (nodes s)"
  let ?P = "\<lambda>a. fmlookup (nodes s) a \<noteq> None"
  from assms obtain rest where r: "dropWhile ?P (avail s) = a # rest" and s1: "avail s1 = rest"
    by (auto simp: alloc_def split: list.splits)
  from x have "\<not> ?P x" by (auto simp: fmdom'I)
  then have "x \<notin> set (takeWhile ?P (avail s))"
    by (auto dest: set_takeWhileD)
  moreover from x have "x \<in> set (takeWhile ?P (avail s) @ dropWhile ?P (avail s))"
    by simp
  ultimately have "x \<in> set (dropWhile ?P (avail s))"
    by (simp only: set_append Un_iff) simp
  with r s1 show "x \<in> insert a (set (avail s1))" by simp
qed

lemma alloc_stock:
  assumes "0 < stock s"
  obtains a s1 where "alloc this s = (Some a, s1)"
proof (cases rule: alloc_cases [of this s])
  case fail
  let ?P = "\<lambda>a. fmlookup (nodes s) a \<noteq> None"
  from fail have "dropWhile ?P (avail s) = []"
    by (auto simp: alloc_def split: list.splits)
  then have "\<forall>x \<in> set (avail s). ?P x"
    by (simp add: dropWhile_eq_Nil_conv)
  then have "set (avail s) - fmdom' (nodes s) = {}"
    by (auto simp: fmdom'I)
  with assms show ?thesis by (simp add: stock_def)
next
  case (ok tmp s1)
  then show ?thesis by (rule that)
qed

lemma stock_after_alloc:
  assumes a: "alloc this s = (Some a, s1)" and av: "avail s' = avail s1"
    and dom: "fmdom' (nodes s') = insert a (fmdom' (nodes s))"
  shows "stock s \<le> Suc (stock s')"
proof -
  have "set (avail s) - fmdom' (nodes s) \<subseteq> insert a (set (avail s') - fmdom' (nodes s'))"
    using alloc_keeps [OF a] av dom by auto
  then have "card (set (avail s) - fmdom' (nodes s)) \<le> card (insert a (set (avail s') - fmdom' (nodes s')))"
    by (intro card_mono) auto
  also have "\<dots> \<le> Suc (card (set (avail s') - fmdom' (nodes s')))"
    by (simp add: card_insert_if)
  finally show ?thesis by (simp add: stock_def)
qed

subsection \<open>Clear\<close>

lemma Clear_owns:
  assumes "owns s this as"
  shows "\<exists>s'. Clear this s = Inr s' \<and> owns s' this [] \<and>
           changes_only (set as) {this} s s' \<and>
           fmdom' (nodes s') = fmdom' (nodes s) - set as \<and>
           made_by s' = made_by s \<and>
           released s' = released s @ map (\<lambda>p. (p, made_by s p, this)) (rev as) \<and>
           avail s' = avail s"
  using assms
proof (induction as arbitrary: s rule: rev_induct)
  case Nil
  then obtain d where "deques s this = Some d" "head d = None"
    by (auto elim: owns_D)
  then have "Clear this s = Inr s"
    by (subst Clear.simps) simp
  with Nil show ?case
    by (simp add: changes_only_refl)
next
  case (snoc t as)
  from snoc.prems obtain d where d: "deques s this = Some d" and h: "head d = first (as @ [t])"
    by (auto elim: owns_D)
  from h have hn: "head d \<noteq> None" by (simp add: first_hd)
  from PopBack_owns [OF snoc.prems] obtain s1 where p: "PopBack this s = Inr s1"
    and o1: "owns s1 this as" and c1: "changes_only (insert t (set as)) {this} s s1"
    and d1: "fmdom' (nodes s1) = fmdom' (nodes s) - {t}"
    and m1: "made_by s1 = made_by s" and r1: "released s1 = released s @ [(t, made_by s t, this)]"
    and a1: "avail s1 = avail s"
    by blast
  from snoc.IH [OF o1] obtain s' where c: "Clear this s1 = Inr s'" and o': "owns s' this []"
    and c2: "changes_only (set as) {this} s1 s'"
    and d2: "fmdom' (nodes s') = fmdom' (nodes s1) - set as"
    and m2: "made_by s' = made_by s1"
    and r2: "released s' = released s1 @ map (\<lambda>p. (p, made_by s1 p, this)) (rev as)"
    and a2: "avail s' = avail s1"
    by blast
  have "Clear this s = Inr s'"
    using d hn p c by (subst Clear.simps) simp
  moreover have "changes_only (set (as @ [t])) {this} s s'"
    using changes_only_trans [OF c1 c2] by (simp add: Un_commute insert_commute)
  moreover have "fmdom' (nodes s') = fmdom' (nodes s) - set (as @ [t])"
    using d1 d2 by auto
  ultimately show ?case
    using o' m1 m2 r1 r2 a1 a2 by simp
qed

subsection \<open>Appending values at the back\<close>

lemma appended_Nil: "owns s this as \<Longrightarrow> appended s this as [] [] s"
  by (simp add: appended_def changes_only_refl)

lemma elems_eq_if_vals:
  assumes "\<And>a. a \<in> set as \<Longrightarrow> map_option val (fmlookup h' a) = map_option val (fmlookup h a)"
  shows "elems h' as = elems h as"
  using assms by (rule elems_frame)

lemma appended_trans:
  assumes 1: "appended s this as vs cs s1" and 2: "appended s1 this (as @ cs) ws ds s2"
  shows "appended s this as (vs @ ws) (cs @ ds) s2"
proof -
  from 1 have o1: "owns s1 this (as @ cs)"
    and e1: "elems (nodes s1) (as @ cs) = elems (nodes s) as @ vs"
    and l1: "length cs = length vs" and f1: "set cs \<inter> fmdom' (nodes s) = {}"
    and c1: "changes_only (set as \<union> set cs) {this} s s1"
    and v1: "\<And>a. a \<notin> set cs \<Longrightarrow>
        map_option val (fmlookup (nodes s1) a) = map_option val (fmlookup (nodes s) a)"
    and d1: "fmdom' (nodes s1) = fmdom' (nodes s) \<union> set cs"
    and m1: "\<And>a. made_by s1 a = (if a \<in> set cs then Some this else made_by s a)"
    and r1: "released s1 = released s" and k1: "stock s \<le> stock s1 + length vs"
    by (simp_all add: appended_def)
  from 2 have o2: "owns s2 this ((as @ cs) @ ds)"
    and e2: "elems (nodes s2) ((as @ cs) @ ds) = elems (nodes s1) (as @ cs) @ ws"
    and l2: "length ds = length ws" and f2: "set ds \<inter> fmdom' (nodes s1) = {}"
    and c2: "changes_only (set (as @ cs) \<union> set ds) {this} s1 s2"
    and v2: "\<And>a. a \<notin> set ds \<Longrightarrow>
        map_option val (fmlookup (nodes s2) a) = map_option val (fmlookup (nodes s1) a)"
    and d2: "fmdom' (nodes s2) = fmdom' (nodes s1) \<union> set ds"
    and m2: "\<And>a. made_by s2 a = (if a \<in> set ds then Some this else made_by s1 a)"
    and r2: "released s2 = released s1" and k2: "stock s1 \<le> stock s2 + length ws"
    by (simp_all add: appended_def)
  have "changes_only (set as \<union> set (cs @ ds)) {this} s s2"
    using changes_only_trans [OF c1 c2] by (simp add: Un_assoc Un_left_commute Un_commute)
  moreover have "set (cs @ ds) \<inter> fmdom' (nodes s) = {}"
    using f1 f2 d1 by auto
  moreover have "fmdom' (nodes s2) = fmdom' (nodes s) \<union> set (cs @ ds)"
    using d1 d2 by auto
  moreover have "\<forall>a. a \<notin> set (cs @ ds) \<longrightarrow>
      map_option val (fmlookup (nodes s2) a) = map_option val (fmlookup (nodes s) a)"
    using v1 v2 by simp
  moreover have "\<forall>a. made_by s2 a = (if a \<in> set (cs @ ds) then Some this else made_by s a)"
    using m1 m2 by simp
  moreover have "elems (nodes s2) (as @ cs @ ds) = elems (nodes s) as @ vs @ ws"
    using e1 e2 by (simp only: append_assoc)
  ultimately show ?thesis
    using o2 l1 l2 r1 r2 k1 k2 by (simp add: appended_def)
qed

lemma PushBack_appended:
  assumes o: "owns s this as" and k: "0 < stock s" and tr: "trivial_elem s"
  shows "\<exists>s' tmp. PushBack this v s = Inr s' \<and> appended s this as [v] [tmp] s'"
proof -
  from k obtain tmp s1 where a: "alloc this s = (Some tmp, s1)"
    by (rule alloc_stock)
  from PushBack_owns [OF o a tr, of v] obtain s' where p: "PushBack this v s = Inr s'"
    and o': "owns s' this (as @ [tmp])"
    and e: "elems (nodes s') (as @ [tmp]) = elems (nodes s) as @ [v]"
    and c: "changes_only (insert tmp (set as)) {this} s s'"
    and vv: "\<forall>a. a \<noteq> tmp \<longrightarrow> map_option val (fmlookup (nodes s') a) = map_option val (fmlookup (nodes s) a)"
    and d: "fmdom' (nodes s') = insert tmp (fmdom' (nodes s))"
    and m: "made_by s' = (made_by s)(tmp \<mapsto> this)" and r: "released s' = released s"
    and av: "avail s' = avail s1"
    by blast
  from alloc_Some(1) [OF a] have "tmp \<notin> fmdom' (nodes s)"
    by (simp add: fmdom'_notI)
  moreover have "stock s \<le> Suc (stock s')"
    using a av d by (rule stock_after_alloc)
  moreover have "changes_only (set as \<union> set [tmp]) {this} s s'"
    using c by (simp add: Un_commute)
  ultimately have "appended s this as [v] [tmp] s'"
    using o' e vv d m r by (simp add: appended_def)
  with p show ?thesis by blast
qed

lemma PushBack_each_owns:
  assumes "owns s this as" "length vs \<le> stock s" "vs \<noteq> [] \<longrightarrow> trivial_elem s"
  shows "\<exists>s' cs. PushBack_each this vs s = Inr s' \<and> appended s this as vs cs s'"
  using assms
proof (induction vs arbitrary: s as)
  case Nil
  then show ?case by (auto intro: appended_Nil)
next
  case (Cons v vs)
  from Cons.prems have k: "0 < stock s" and tr: "trivial_elem s" by simp_all
  from PushBack_appended [OF Cons.prems(1) k tr, of v] obtain s1 tmp
    where p: "PushBack this v s = Inr s1" and a1: "appended s this as [v] [tmp] s1"
    by blast
  from a1 have o1: "owns s1 this (as @ [tmp])" and "stock s \<le> stock s1 + 1"
    by (simp_all add: appended_def)
  with Cons.prems have "length vs \<le> stock s1" by simp
  moreover from a1 tr have "vs \<noteq> [] \<longrightarrow> trivial_elem s1"
    by (simp add: appended_def changes_only_def)
  ultimately obtain s' cs
    where e: "PushBack_each this vs s1 = Inr s'" and a2: "appended s1 this (as @ [tmp]) vs cs s'"
    using Cons.IH [OF o1] by blast
  from appended_trans [OF a1 a2] have "appended s this as (v # vs) (tmp # cs) s'" by simp
  with p e show ?case by auto
qed

lemma dseg_head_node:
  assumes "dseg h p (b # bs) None"
  obtains n where "fmlookup h b = Some n" "next n = first bs" "dseg h (Some b) bs None"
  using assms by (auto simp: first_def split: option.splits list.splits)



subsection \<open>Taking over a chain\<close>

declare Clear.simps [simp del] PushBack_range.simps [simp del]

lemma owns_empty_deque:
  assumes "owns s i []"
  shows "deques s i = Some \<lparr>head = None, tail = None, size_d = 0\<rparr>"
  using assms by (auto elim!: owns_D)


lemma owns_set_deque_same:
  "owns (set_deque i d s) i as \<longleftrightarrow>
     distinct as \<and> dseg (nodes s) None as None \<and> head d = first as \<and> tail d = final as \<and>
     size_d d = of_nat (length as)"
  by (simp add: owns_def set_deque_def)

lemma deque_t_move_owns:
  assumes o: "owns s src bs" and ne: "this \<noteq> src"
  shows "\<exists>s' d. deque_t_move this src s = Inr s' \<and> deques s src = Some d \<and>
           deques s' this = Some d \<and> owns s' this bs \<and> owns s' src [] \<and>
           s' = set_deque src \<lparr>head = None, tail = None, size_d = 0\<rparr> (set_deque this d s)"
proof -
  from o obtain d where d: "deques s src = Some d" and dist: "distinct bs"
    and seg: "dseg (nodes s) None bs None" and hd: "head d = first bs" and tl: "tail d = final bs"
    and sz: "size_d d = of_nat (length bs)"
    by (rule owns_D)
  have dd: "\<lparr>head = head d, tail = tail d, size_d = size_d d\<rparr> = d" by simp
  let ?s' = "set_deque src \<lparr>head = None, tail = None, size_d = 0\<rparr> (set_deque this d s)"
  have "deque_t_move this src s = Inr ?s'"
    using d by (simp add: deque_t_move_def dd)
  moreover have "owns ?s' this bs"
    using ne dist seg hd tl sz by (simp add: owns_def set_deque_def)
  moreover have "owns ?s' src []"
    by (simp add: owns_def set_deque_def)
  moreover have "deques ?s' this = Some d"
    using ne by (simp add: set_deque_def)
  ultimately show ?thesis using d by blast
qed

lemma dseg_link:
  assumes "dseg h p (as @ bs) q" "as \<noteq> []" "bs \<noteq> []"
  shows "\<exists>n m. fmlookup h (last as) = Some n \<and> next n = Some (hd bs) \<and>
           fmlookup h (hd bs) = Some m \<and> prev m = Some (last as)"
proof -
  from assms(2) obtain as' t where as: "as = as' @ [t]" by (cases as rule: rev_cases) auto
  from assms(3) obtain b bs' where bs: "bs = b # bs'" by (cases bs) auto
  from assms(1) have "dseg h p (as' @ [t]) (case b # bs' of [] \<Rightarrow> q | x # _ \<Rightarrow> Some x) \<and>
      dseg h (case final (as' @ [t]) of None \<Rightarrow> p | Some x \<Rightarrow> Some x) (b # bs') q"
    unfolding as bs by (rule dseg_append [THEN iffD1])
  then have "dseg h p (as' @ [t]) (Some b)" and "dseg h (Some t) (b # bs') q"
    by simp_all
  then show ?thesis
    unfolding as bs by (auto simp: dseg_snoc split: option.splits)
qed

lemma AddOtherDeque_move_owns:
  assumes oa: "owns s this as" and ob: "owns s src bs" and ne: "this \<noteq> src"
    and dj: "set as \<inter> set bs = {}"
  shows "\<exists>s'. AddOtherDeque_move this src s = Inr s' \<and>
           owns s' this (as @ bs) \<and> owns s' src [] \<and>
           changes_only (set as \<union> set bs) {this, src} s s' \<and>
           (\<forall>a. map_option val (fmlookup (nodes s') a) = map_option val (fmlookup (nodes s) a)) \<and>
           fmdom' (nodes s') = fmdom' (nodes s) \<and>
           made_by s' = made_by s \<and> released s' = released s \<and> avail s' = avail s \<and>
           (as = [] \<longrightarrow> deques s' this = deques s src \<and> nodes s' = nodes s) \<and>
           (bs = [] \<longrightarrow> s' = s)"
proof -
  from oa obtain d where d: "deques s this = Some d" and dista: "distinct as"
    and sega: "dseg (nodes s) None as None" and hda: "head d = first as" and tla: "tail d = final as"
    and sza: "size_d d = of_nat (length as)"
    by (rule owns_D)
  from ob obtain b where b: "deques s src = Some b" and distb: "distinct bs"
    and segb: "dseg (nodes s) None bs None" and hdb: "head b = first bs" and tlb: "tail b = final bs"
    and szb: "size_d b = of_nat (length bs)"
    by (rule owns_D)
  let ?e = "\<lparr>head = None, tail = None, size_d = 0\<rparr>"
  show ?thesis
  proof (cases "as = []")
    case True
    have bb: "\<lparr>head = head b, tail = tail b, size_d = size_d b\<rparr> = b" by simp
    let ?s' = "set_deque src ?e (set_deque this b s)"
    from True tla have "tail d = None" by simp
    with d b have "AddOtherDeque_move this src s = Inr ?s'"
      by (simp add: AddOtherDeque_move_def bb)
    moreover have "owns ?s' this (as @ bs)"
      using True ne distb segb hdb tlb szb by (simp add: owns_def set_deque_def)
    moreover have "owns ?s' src []"
      by (simp add: owns_def set_deque_def)
    moreover have "bs = [] \<longrightarrow> ?s' = s"
    proof
      assume "bs = []"
      with ob have "deques s src = Some ?e" by (simp add: owns_empty_deque)
      moreover from oa True have "deques s this = Some ?e" by (simp add: owns_empty_deque)
      moreover from b \<open>deques s src = Some ?e\<close> have "b = ?e" by simp
      ultimately show "?s' = s"
        by (simp add: set_deque_def fun_upd_idem)
    qed
    ultimately show ?thesis
      using b ne by (auto simp: changes_only_def set_deque_def)
  next
    case False
    then obtain as' t where as: "as = as' @ [t]" by (cases as rule: rev_cases) auto
    with tla have t: "tail d = Some t" by simp
    show ?thesis
    proof (cases bs)
      case Nil
      with hdb have "head b = None" by simp
      with d b t have "AddOtherDeque_move this src s = Inr s"
        by (simp add: AddOtherDeque_move_def)
      with Nil oa ob False show ?thesis
        by (simp add: changes_only_refl)
    next
      case (Cons h bs')
      with hdb have h: "head b = Some h" by simp
      from sega as obtain nt where nt: "fmlookup (nodes s) t = Some nt"
        by (auto simp: dseg_snoc)
      from segb Cons obtain nh where nh: "fmlookup (nodes s) h = Some nh"
        by (auto split: option.splits)
      from dj as Cons have th: "t \<noteq> h" "t \<notin> set bs" "h \<notin> set as" by auto
      let ?h1 = "fmupd t (nt\<lparr>next := Some h\<rparr>) (nodes s)"
      let ?h2 = "fmupd h (nh\<lparr>prev := Some t\<rparr>) ?h1"
      let ?s2 = "set_node h (nh\<lparr>prev := Some t\<rparr>) (set_node t (nt\<lparr>next := Some h\<rparr>) s)"
      let ?s' = "set_deque src ?e
                   (set_deque this \<lparr>head = head d, tail = tail b, size_d = size_d d + size_d b\<rparr> ?s2)"
      have run: "AddOtherDeque_move this src s = Inr ?s'"
        using d b t h nt nh th(1)
        by (simp add: AddOtherDeque_move_def store_next_def store_prev_def set_node_def)
      have nodes': "nodes ?s' = ?h2"
        by (simp add: set_deque_def set_node_def)
      have "dseg ?h1 None (as' @ [t]) (Some h)"
        using sega nt dista unfolding as by (intro dseg_set_next_last) auto
      then have 1: "dseg ?h2 None (as' @ [t]) (Some h)"
        using th(3) as by (subst dseg_frame [where h = ?h1]) auto
      have "dseg ?h1 None (h # bs') None"
        using segb th(2) Cons by (subst dseg_frame [where h = "nodes s"]) auto
      moreover have "h \<notin> set bs'" using distb Cons by simp
      moreover have "fmlookup ?h1 h = Some nh" using nh th(1) by simp
      ultimately have 2: "dseg ?h2 (Some t) (h # bs') None"
        by (rule dseg_set_prev_first)
      from 1 2 have "dseg ?h2 None ((as' @ [t]) @ h # bs') None"
        by (subst dseg_append) simp
      then have "owns ?s' this (as @ bs)"
        using ne dista distb dj hda tlb sza szb nodes' as Cons
        by (simp add: owns_def set_deque_def)
      moreover have "owns ?s' src []"
        by (simp add: owns_def set_deque_def)
      moreover have "changes_only (set as \<union> set bs) {this, src} s ?s'"
        using as Cons by (auto simp: changes_only_def set_deque_def set_node_def)
      moreover have "\<forall>a. map_option val (fmlookup (nodes ?s') a) = map_option val (fmlookup (nodes s) a)"
        using nt nh nodes' by auto
      moreover have "fmdom' (nodes ?s') = fmdom' (nodes s)"
        using nt nh nodes' by (auto simp: fmdom'I)
      moreover have "made_by ?s' = made_by s" "released ?s' = released s" "avail ?s' = avail s"
        by (simp_all add: set_deque_def set_node_def)
      ultimately show ?thesis using run False Cons by simp
    qed
  qed
qed

lemma assign_move_owns:
  assumes oa: "owns s this as" and ob: "owns s src bs" and ne: "this \<noteq> src"
    and dj: "set as \<inter> set bs = {}"
  shows "\<exists>s' d. assign_move this src s = Inr s' \<and> deques s src = Some d \<and>
           deques s' this = Some d \<and> owns s' this bs \<and> owns s' src [] \<and>
           elems (nodes s') bs = elems (nodes s) bs \<and>
           changes_only (set as) {this, src} s s' \<and>
           fmdom' (nodes s') = fmdom' (nodes s) - set as \<and>
           made_by s' = made_by s \<and>
           released s' = released s @ map (\<lambda>p. (p, made_by s p, this)) (rev as) \<and>
           avail s' = avail s"
proof -
  from Clear_owns [OF oa] obtain s1 where c: "Clear this s = Inr s1" and o1: "owns s1 this []"
    and c1: "changes_only (set as) {this} s s1"
    and d1: "fmdom' (nodes s1) = fmdom' (nodes s) - set as"
    and m1: "made_by s1 = made_by s"
    and r1: "released s1 = released s @ map (\<lambda>p. (p, made_by s p, this)) (rev as)"
    and a1: "avail s1 = avail s"
    by blast
  from dj have dj': "set bs \<inter> set as = {}" by auto
  from owns_frame [OF ob c1 _ dj'] ne have ob1: "owns s1 src bs"
    and e1: "elems (nodes s1) bs = elems (nodes s) bs" by simp_all
  from ob obtain d where d: "deques s src = Some d" by (rule owns_D)
  with c1 ne have d1': "deques s1 src = Some d" by (simp add: changes_only_def)
  from deque_t_move_owns [OF ob1 ne] d1' obtain s' where
    m: "deque_t_move this src s1 = Inr s'" and dt: "deques s' this = Some d"
    and ot: "owns s' this bs" and os: "owns s' src []"
    and s': "s' = set_deque src \<lparr>head = None, tail = None, size_d = 0\<rparr> (set_deque this d s1)"
    by auto
  have "assign_move this src s = Inr s'"
    using c m d1' by (simp add: assign_move_def deque_t_move_def)
  moreover have "changes_only (set as) {this, src} s s'"
    using c1 by (auto simp: s' changes_only_def set_deque_def)
  moreover have "nodes s' = nodes s1" "made_by s' = made_by s1" "released s' = released s1"
    "avail s' = avail s1"
    by (simp_all add: s' set_deque_def)
  ultimately show ?thesis
    using d dt ot os e1 d1 m1 r1 a1 by simp
qed

subsection \<open>Two deques with separate chains\<close>

lemma owns_dom: "owns s i as \<Longrightarrow> set as \<subseteq> fmdom' (nodes s)"
  using owns_live [of s i as] by (auto simp: fmlookup_dom'_iff)

lemma result_state_simps [simp]:
  "result_state (Inl (e, s)) = s" "result_state (Inr s) = s"
  by (simp_all add: result_state_def)









section \<open>All deques of a program\<close>

subsection \<open>Every call keeps the chains owned and apart\<close>

lemma all_own_owns: "all_own ch s \<Longrightarrow> deques s i = Some d \<Longrightarrow> owns s i (ch i)"
  by (auto simp: all_own_def split: option.splits dest!: spec [of _ i])

lemma all_own_none: "all_own ch s \<Longrightarrow> deques s i = None \<Longrightarrow> ch i = []"
  by (auto simp: all_own_def split: option.splits dest!: spec [of _ i])

lemma all_own_disjoint: "all_own ch s \<Longrightarrow> i \<noteq> j \<Longrightarrow> set (ch i) \<inter> set (ch j) = {}"
  by (simp add: all_own_def)

lemma all_own_live: "all_own ch s \<Longrightarrow> set (ch i) \<subseteq> fmdom' (nodes s)"
proof (cases "deques s i")
  case None
  assume "all_own ch s"
  with None show ?thesis by (simp add: all_own_none)
next
  case (Some d)
  assume "all_own ch s"
  with Some show ?thesis by (auto dest: all_own_owns owns_dom)
qed

text \<open>The store determines the chains.\<close>

lemma dseg_unique:
  "dseg h p as None \<Longrightarrow> dseg h p bs None \<Longrightarrow> first as = first bs \<Longrightarrow> as = bs"
proof (induction as arbitrary: bs p)
  case Nil
  then show ?case by (cases bs) (simp_all add: first_def)
next
  case (Cons a as)
  from Cons.prems(3) obtain bs' where bs: "bs = a # bs'"
    by (cases bs) (simp_all add: first_def)
  from Cons.prems(1) obtain n where n: "fmlookup h a = Some n" "next n = first as"
    "dseg h (Some a) as None"
    by (rule dseg_head_node)
  from Cons.prems(2) bs have "dseg h p (a # bs') None" by simp
  then obtain m where m: "fmlookup h a = Some m" "next m = first bs'"
    "dseg h (Some a) bs' None"
    by (rule dseg_head_node)
  from n(1) m(1) have "n = m" by simp
  with n(2) m(2) have "first as = first bs'" by simp
  with Cons.IH [OF n(3) m(3)] bs show ?case by simp
qed

lemma owns_unique: "owns s i as \<Longrightarrow> owns s i bs \<Longrightarrow> as = bs"
  by (erule owns_D, erule owns_D) (auto intro: dseg_unique)

lemma all_own_unique:
  assumes "all_own ch s" "all_own ch2 s"
  shows "ch = ch2"
proof
  fix i
  show "ch i = ch2 i"
  proof (cases "deques s i")
    case None
    with assms show ?thesis by (simp add: all_own_none)
  next
    case (Some d)
    with assms show ?thesis by (auto dest: all_own_owns intro: owns_unique)
  qed
qed

lemma all_own_update:
  assumes w: "all_own ch s"
    and c: "changes_only A I s s'"
    and A: "A \<inter> fmdom' (nodes s) \<subseteq> (\<Union>i\<in>I. set (ch i))"
    and own: "\<And>i. i \<in> I \<Longrightarrow> (case deques s' i of None \<Rightarrow> ch' i = [] | Some d \<Rightarrow> owns s' i (ch' i))"
    and same: "\<And>j. j \<notin> I \<Longrightarrow> ch' j = ch j"
    and sub: "\<And>i. i \<in> I \<Longrightarrow> set (ch' i) \<subseteq> (\<Union>i\<in>I. set (ch i)) \<union> (- fmdom' (nodes s))"
    and dj: "\<And>i j. i \<in> I \<Longrightarrow> j \<in> I \<Longrightarrow> i \<noteq> j \<Longrightarrow> set (ch' i) \<inter> set (ch' j) = {}"
  shows "all_own ch' s'"
proof -
  have out: "set (ch j) \<inter> ((\<Union>i\<in>I. set (ch i)) \<union> (- fmdom' (nodes s))) = {}" if "j \<notin> I" for j
  proof -
    have "set (ch j) \<inter> set (ch i) = {}" if "i \<in> I" for i
      using all_own_disjoint [OF w, of j i] that \<open>j \<notin> I\<close> by auto
    with all_own_live [OF w, of j] show ?thesis by auto
  qed
  have 1: "case deques s' i of None \<Rightarrow> ch' i = [] | Some d \<Rightarrow> owns s' i (ch' i)" for i
  proof (cases "i \<in> I")
    case True
    then show ?thesis by (rule own)
  next
    case False
    then have d: "deques s' i = deques s i" using c by (simp add: changes_only_def)
    show ?thesis
    proof (cases "deques s i")
      case None
      with d all_own_none [OF w None] same [OF False] show ?thesis by simp
    next
      case (Some x)
      have "set (ch i) \<inter> A = {}"
        using out [OF False] A all_own_live [OF w, of i] by auto
      from owns_frame(1) [OF all_own_owns [OF w Some] c False this] d Some same [OF False]
      show ?thesis by simp
    qed
  qed
  have 2: "set (ch' i) \<inter> set (ch' j) = {}" if "i \<noteq> j" for i j
  proof (cases "i \<in> I"; cases "j \<in> I")
    assume "i \<in> I" "j \<in> I"
    with that show ?thesis by (rule dj [rotated 2])
  next
    assume i: "i \<in> I" and j: "j \<notin> I"
    from out [OF j] sub [OF i] same [OF j] show ?thesis by auto
  next
    assume i: "i \<notin> I" and j: "j \<in> I"
    from out [OF i] sub [OF j] same [OF i] show ?thesis by auto
  next
    assume i: "i \<notin> I" and j: "j \<notin> I"
    from all_own_disjoint [OF w that] same [OF i] same [OF j] show ?thesis by simp
  qed
  from 1 2 show ?thesis by (simp add: all_own_def)
qed

lemma all_own_single:
  assumes w: "all_own ch s"
    and c: "changes_only A {this} s s'"
    and A: "A \<inter> fmdom' (nodes s) \<subseteq> set (ch this)"
    and own: "case deques s' this of None \<Rightarrow> as' = [] | Some d \<Rightarrow> owns s' this as'"
    and sub: "set as' \<subseteq> set (ch this) \<union> (- fmdom' (nodes s))"
  shows "all_own (ch(this := as')) s'"
  using w c
proof (rule all_own_update)
  show "A \<inter> fmdom' (nodes s) \<subseteq> (\<Union>i\<in>{this}. set (ch i))" using A by simp
qed (use own sub in \<open>auto split: option.splits\<close>)

lemma all_own_pair:
  assumes w: "all_own ch s" and ne: "this \<noteq> src"
    and c: "changes_only A {this, src} s s'"
    and A: "A \<inter> fmdom' (nodes s) \<subseteq> set (ch this) \<union> set (ch src)"
    and o1: "owns s' this as'" and o2: "owns s' src bs'"
    and sub: "set as' \<union> set bs' \<subseteq> set (ch this) \<union> set (ch src) \<union> (- fmdom' (nodes s))"
    and dj: "set as' \<inter> set bs' = {}"
  shows "all_own (ch(this := as', src := bs')) s'"
  using w c
proof (rule all_own_update)
  show "A \<inter> fmdom' (nodes s) \<subseteq> (\<Union>i\<in>{this, src}. set (ch i))" using A by auto
  show "case deques s' i of None \<Rightarrow> (ch(this := as', src := bs')) i = []
        | Some d \<Rightarrow> owns s' i ((ch(this := as', src := bs')) i)" if "i \<in> {this, src}" for i
    using that ne o1 o2 by (auto simp: owns_def split: option.splits)
qed (use ne sub dj in auto)

lemma alloc_Some_stock:
  assumes "alloc this s = (Some a, s1)"
  shows "0 < stock s"
proof -
  from alloc_Some(1,2) [OF assms] have "a \<in> set (avail s) - fmdom' (nodes s)"
    by (simp add: fmdom'_notI)
  then have "set (avail s) - fmdom' (nodes s) \<noteq> {}"
    by blast
  then show ?thesis
    unfolding stock_def card_gt_0_iff by simp
qed

lemma PushBack_success:
  assumes "owns s this as" "PushBack this v s = Inr s'"
  shows "\<exists>tmp. appended s this as [v] [tmp] s'"
proof -
  from assms(2) obtain tmp s1 where "alloc this s = (Some tmp, s1)" and tr: "trivial_elem s"
    by (rule PushBack_Inr_alloc)
  then have "0 < stock s" by (simp add: alloc_Some_stock)
  from PushBack_appended [OF assms(1) this tr, of v] assms(2) show ?thesis by auto
qed

lemma PushBack_each_success:
  assumes "owns s this as" "PushBack_each this vs s = Inr s'"
  shows "\<exists>cs. appended s this as vs cs s'"
  using assms
proof (induction vs arbitrary: s as)
  case Nil
  then show ?case by (auto intro: appended_Nil)
next
  case (Cons v vs)
  from Cons.prems(2) obtain s1 where p: "PushBack this v s = Inr s1"
    and e: "PushBack_each this vs s1 = Inr s'"
    by (auto split: sum.splits)
  from PushBack_success [OF Cons.prems(1) p] obtain tmp where a1: "appended s this as [v] [tmp] s1"
    by blast
  then have o1: "owns s1 this (as @ [tmp])" by (simp add: appended_def)
  from Cons.IH [OF o1 e] obtain cs where a2: "appended s1 this (as @ [tmp]) vs cs s'"
    by blast
  from appended_trans [OF a1 a2] have "appended s this as (v # vs) (tmp # cs) s'" by simp
  then show ?case by blast
qed

lemma PushBack_range_success:
  assumes "owns s this as" "dseg (nodes s) p bs None" "set bs \<inter> set as = {}"
    "PushBack_range this (Const_iterator (first bs)) s = Inr s'"
  shows "\<exists>cs. appended s this as (elems (nodes s) bs) cs s'"
  using assms
proof (induction bs arbitrary: s as p)
  case Nil
  from Nil.prems(4) have "s' = s"
    by (subst (asm) PushBack_range.simps) (simp add: cend_def)
  with Nil.prems(1) show ?case by (auto intro: appended_Nil)
next
  case (Cons b bs)
  from Cons.prems(2) obtain n where n: "fmlookup (nodes s) b = Some n" and nn: "next n = first bs"
    and seg: "dseg (nodes s) (Some b) bs None"
    by (rule dseg_head_node)
  from Cons.prems(4) n obtain s1 where p: "PushBack this (val n) s = Inr s1"
    and rest: "(case const_iterator_inc (Const_iterator (Some b)) s1 of
                  Inl e \<Rightarrow> Inl (e, s1)
                | Inr it' \<Rightarrow> PushBack_range this it' s1) = Inr s'"
    by (subst (asm) PushBack_range.simps) (auto simp: cend_def split: sum.splits)
  from PushBack_success [OF Cons.prems(1) p] obtain tmp
    where a1: "appended s this as [val n] [tmp] s1"
    by blast
  from a1 have o1: "owns s1 this (as @ [tmp])"
    and c1: "changes_only (set as \<union> {tmp}) {this} s s1"
    and f1: "tmp \<notin> fmdom' (nodes s)"
    by (simp_all add: appended_def)
  have live: "a \<in> fmdom' (nodes s)" if "a \<in> set (b # bs)" for a
    using dseg_live [OF Cons.prems(2) that] by (auto simp: fmdom'I)
  have same: "fmlookup (nodes s1) a = fmlookup (nodes s) a" if "a \<in> set (b # bs)" for a
  proof -
    from that Cons.prems(3) have "a \<notin> set as" by auto
    moreover from live [OF that] f1 have "a \<noteq> tmp" by auto
    ultimately show ?thesis using c1 by (simp add: changes_only_def)
  qed
  have n1: "fmlookup (nodes s1) b = Some n" using same [of b] n by simp
  have seg1: "dseg (nodes s1) (Some b) bs None"
    using seg same by (subst dseg_frame [where h = "nodes s"]) auto
  have e1: "elems (nodes s1) bs = elems (nodes s) bs"
    using same by (intro elems_frame) auto
  have dj: "set bs \<inter> set (as @ [tmp]) = {}"
    using Cons.prems(3) live f1 by auto
  from rest n1 nn have "PushBack_range this (Const_iterator (first bs)) s1 = Inr s'"
    by simp
  from Cons.IH [OF o1 seg1 dj this] obtain cs
    where a2: "appended s1 this (as @ [tmp]) (elems (nodes s1) bs) cs s'"
    by blast
  from appended_trans [OF a1 a2] e1 n
  have "appended s this as (elems (nodes s) (b # bs)) (tmp # cs) s'" by simp
  then show ?case by blast
qed

lemma PushBack_all_success:
  assumes "owns s this as" "owns s src bs" "set bs \<inter> set as = {}"
    "PushBack_all this src s = Inr s'"
  shows "\<exists>cs. appended s this as (elems (nodes s) bs) cs s'"
proof -
  from assms(2) obtain d where "deques s src = Some d" "head d = first bs"
    "dseg (nodes s) None bs None"
    by (rule owns_D)
  with PushBack_range_success [OF assms(1) _ assms(3), of None s'] assms(4) show ?thesis
    by (simp add: PushBack_all_def cbegin_def)
qed

text \<open>
  Copying a non-empty deque into itself: the iterator stays inside the chain that grows
  behind it, so the loop goes on until \<^verbatim>\<open>malloc\<close> fails.
\<close>

lemma dseg_next_inside:
  assumes "dseg h p xs q" "a \<in> set xs" "a \<noteq> last xs"
  shows "\<exists>n b. fmlookup h a = Some n \<and> next n = Some b \<and> b \<in> set xs"
  using assms
proof (induction xs arbitrary: p)
  case Nil
  then show ?case by simp
next
  case (Cons x xs)
  show ?case
  proof (cases "a = x")
    case True
    with Cons.prems obtain y ys where "xs = y # ys" by (cases xs) auto
    with Cons.prems True show ?thesis by (auto split: option.splits)
  next
    case False
    with Cons.prems have "a \<in> set xs" "a \<noteq> last xs" "dseg h (Some x) xs q"
      by (auto split: option.splits if_splits)
    from Cons.IH [OF this(3,1,2)] show ?thesis by auto
  qed
qed

lemma PushBack_range_self:
  "owns s this as \<Longrightarrow> it = Const_iterator (Some a) \<Longrightarrow> a \<in> set as \<Longrightarrow>
   PushBack_range this it s \<noteq> Inr s'"
proof (induction this it s arbitrary: as a rule: PushBack_range.induct)
  case (1 this it s)
  show ?case
  proof
    assume r: "PushBack_range this it s = Inr s'"
    from owns_live [OF "1.prems"(1,3)] obtain n where n: "fmlookup (nodes s) a = Some n"
      by auto
    have ne: "\<not> const_iterator_eq it cend" and dr: "const_iterator_deref it s = Inr (val n)"
      using "1.prems"(2) n by (simp_all add: cend_def)
    from r ne dr obtain s1 where p: "PushBack this (val n) s = Inr s1"
      and rest: "(case const_iterator_inc it s1 of
                  Inl e \<Rightarrow> Inl (e, s1)
                | Inr it' \<Rightarrow> PushBack_range this it' s1) = Inr s'"
      by (subst (asm) PushBack_range.simps) (auto split: sum.splits)
    from PushBack_success [OF "1.prems"(1) p] obtain tmp
      where "appended s this as [val n] [tmp] s1"
      by blast
    then have o1: "owns s1 this (as @ [tmp])" and "tmp \<notin> fmdom' (nodes s)"
      by (simp_all add: appended_def)
    with owns_dom [OF "1.prems"(1)] "1.prems"(3) have "a \<noteq> tmp" by auto
    then have "a \<in> set (as @ [tmp])" "a \<noteq> last (as @ [tmp])"
      using "1.prems"(3) by simp_all
    moreover from o1 have "dseg (nodes s1) None (as @ [tmp]) None" by (rule owns_D)
    ultimately obtain m b where m: "fmlookup (nodes s1) a = Some m" "next m = Some b"
      "b \<in> set (as @ [tmp])"
      using dseg_next_inside by blast
    with "1.prems"(2) have inc: "const_iterator_inc it s1 = Inr (Const_iterator (Some b))"
      by simp
    with rest have "PushBack_range this (Const_iterator (Some b)) s1 = Inr s'" by simp
    moreover have "PushBack_range this (Const_iterator (Some b)) s1 \<noteq> Inr s'"
      using ne dr p inc o1 m(3) by (rule "1.IH" [OF _ _ _ _ _ refl])
    ultimately show False by simp
  qed
qed

lemma own_made_I:
  assumes "\<And>i a. a \<in> set (ch i) \<Longrightarrow> made_by s a = Some i"
    and "\<And>p m i. (p, m, i) \<in> set (released s) \<Longrightarrow> m = Some i"
  shows "own_made ch s"
  using assms by (auto simp: own_made_def)

lemma own_made_maker: "own_made ch s \<Longrightarrow> a \<in> set (ch i) \<Longrightarrow> made_by s a = Some i"
  by (simp add: own_made_def)

lemma own_made_released: "own_made ch s \<Longrightarrow> (p, m, i) \<in> set (released s) \<Longrightarrow> m = Some i"
  by (force simp: own_made_def)

lemma owns_case: "owns s i as \<Longrightarrow> (case deques s i of None \<Rightarrow> as = [] | Some d \<Rightarrow> owns s i as)"
  by (auto simp: owns_def split: option.splits)

subsection \<open>Every release goes through the holder's allocator instance\<close>

lemma releases_same: "released s' = released s \<Longrightarrow> releases ch s s'"
  by (simp add: releases_def)

lemma releases_map:
  assumes "released s' = released s @ map (\<lambda>p. (p, made_by s p, this)) ps"
    and "set ps \<subseteq> set (ch this)"
  shows "releases ch s s'"
  unfolding releases_def
proof (intro exI conjI)
  show "released s' = released s @ map (\<lambda>p. (p, made_by s p, this)) ps" by (rule assms(1))
  show "list_all (\<lambda>e. fst e \<in> set (ch (snd (snd e))) \<and> fst (snd e) = made_by s (fst e))
          (map (\<lambda>p. (p, made_by s p, this)) ps)"
    using assms(2) by (auto simp: list_all_iff)
qed

lemma foreign_single:
  assumes w: "all_own ch s" and n: "N \<inter> fmdom' (nodes s) = {}"
    and m: "\<And>a. made_by s' a = (if a \<in> N then Some this else made_by s a)"
    and sub: "set as' \<subseteq> set (ch this) \<union> N"
  shows "foreign (ch(this := as')) s' \<subseteq> foreign ch s"
proof
  fix a
  assume "a \<in> foreign (ch(this := as')) s'"
  then obtain i where i: "a \<in> set ((ch(this := as')) i)" "made_by s' a \<noteq> Some i"
    by (auto simp: foreign_def)
  show "a \<in> foreign ch s"
  proof (cases "i = this")
    case True
    with i m [of a] have "a \<notin> N" by (auto split: if_splits)
    with i True sub m [of a] show ?thesis by (auto simp: foreign_def)
  next
    case False
    with i have c: "a \<in> set (ch i)" by simp
    with all_own_live [OF w, of i] n have "a \<notin> N" by auto
    with i c m [of a] show ?thesis by (auto simp: foreign_def)
  qed
qed

lemma foreign_moved:
  assumes "made_by s' = made_by s"
    and "\<And>i. set (ch' i) \<subseteq> (if i = this then set (ch this) \<union> H else set (ch i))"
  shows "foreign ch' s' \<subseteq> foreign ch s \<union> H"
proof
  fix a
  assume "a \<in> foreign ch' s'"
  then obtain i where i: "a \<in> set (ch' i)" "made_by s a \<noteq> Some i"
    using assms(1) by (auto simp: foreign_def)
  with assms(2) [of i] show "a \<in> foreign ch s \<union> H"
    by (auto simp: foreign_def split: if_splits)
qed

lemma step_I:
  "all_own ch' s' \<Longrightarrow> releases ch s s' \<Longrightarrow> foreign ch' s' \<subseteq> foreign ch s \<union> H \<Longrightarrow>
   step ch s H ch' s'"
  by (simp add: step_def)

lemma step_all_own: "step ch s H ch' s' \<Longrightarrow> all_own ch' s'"
  by (simp add: step_def)

lemma step_mono: "step ch s H ch' s' \<Longrightarrow> H \<subseteq> H' \<Longrightarrow> step ch s H' ch' s'"
  by (auto simp: step_def)

lemma step_refl: "all_own ch s \<Longrightarrow> step ch s H ch s"
  by (simp add: step_def releases_def)

lemma step_then_quiet:
  assumes 1: "step ch s H ch1 s1" and 2: "step ch1 s1 H' ch' s'"
    and r: "released s' = released s1"
  shows "step ch s (H \<union> H') ch' s'"
proof -
  from 1 r have "releases ch s s'" by (simp add: step_def releases_def)
  moreover from 1 2 have "foreign ch' s' \<subseteq> foreign ch s \<union> (H \<union> H')"
    by (auto simp: step_def)
  ultimately show ?thesis using 2 by (simp add: step_def)
qed

lemma quiet_then_step:
  assumes 1: "step ch s H ch1 s1" and r: "released s1 = released s"
    and m: "made_by s1 = made_by s" and sub: "\<And>i. set (ch1 i) \<subseteq> set (ch i)"
    and 2: "step ch1 s1 H' ch' s'"
  shows "step ch s (H \<union> H') ch' s'"
proof -
  from 2 obtain new where n: "released s' = released s1 @ new"
    and l: "list_all (\<lambda>e. fst e \<in> set (ch1 (snd (snd e))) \<and> fst (snd e) = made_by s1 (fst e)) new"
    by (auto simp: step_def releases_def)
  from l m sub
  have "list_all (\<lambda>e. fst e \<in> set (ch (snd (snd e))) \<and> fst (snd e) = made_by s (fst e)) new"
    by (auto simp: list_all_iff)
  with n r have "releases ch s s'" by (auto simp: releases_def)
  moreover from 1 2 have "foreign ch' s' \<subseteq> foreign ch s \<union> (H \<union> H')"
    by (auto simp: step_def)
  ultimately show ?thesis using 2 by (simp add: step_def)
qed

lemma step_own_made:
  assumes st: "step ch s {} ch' s'" and om: "own_made ch s"
  shows "own_made ch' s'"
proof (rule own_made_I)
  from om have "foreign ch s = {}" by (auto simp: own_made_def foreign_def)
  with st have e: "foreign ch' s' = {}" by (simp add: step_def)
  fix i a
  assume "a \<in> set (ch' i)"
  with e show "made_by s' a = Some i" by (auto simp: foreign_def)
next
  from st obtain new where n: "released s' = released s @ new"
    and l: "list_all (\<lambda>e. fst e \<in> set (ch (snd (snd e))) \<and> fst (snd e) = made_by s (fst e)) new"
    by (auto simp: step_def releases_def)
  fix p m i
  assume "(p, m, i) \<in> set (released s')"
  with n consider "(p, m, i) \<in> set (released s)" | "(p, m, i) \<in> set new" by auto
  then show "m = Some i"
  proof cases
    case 1
    with om show ?thesis by (rule own_made_released)
  next
    case 2
    with l have "p \<in> set (ch i)" "m = made_by s p" by (auto simp: list_all_iff)
    with om show ?thesis by (simp add: own_made_maker)
  qed
qed

lemma default_quiet:
  "released (deque_t_default this s) = released s" "made_by (deque_t_default this s) = made_by s"
  by (simp_all add: deque_t_default_def set_deque_def)

lemma default_step:
  assumes w: "all_own ch s"
  shows "step ch s {} (ch(this := [])) (deque_t_default this s)"
proof (rule step_I)
  have c: "changes_only {} {this} s (deque_t_default this s)"
    by (simp add: changes_only_def deque_t_default_def set_deque_def)
  have o: "owns (deque_t_default this s) this []"
    by (simp add: owns_def deque_t_default_def set_deque_def)
  show "all_own (ch(this := [])) (deque_t_default this s)"
    using w c by (rule all_own_single) (use o in \<open>simp_all add: owns_case\<close>)
  show "releases ch s (deque_t_default this s)"
    by (rule releases_same) (rule default_quiet)
  have "foreign (ch(this := [])) (deque_t_default this s) \<subseteq> foreign ch s"
    using w by (rule foreign_single [where N = "{}"]) (simp_all add: default_quiet)
  then show "foreign (ch(this := [])) (deque_t_default this s) \<subseteq> foreign ch s \<union> {}"
    by simp
qed

lemma appended_step:
  assumes w: "all_own ch s" and ap: "appended s this (ch this) vs cs s'"
  shows "step ch s {} (ch(this := ch this @ cs)) s'"
proof (rule step_I)
  from ap have o: "owns s' this (ch this @ cs)" and f: "set cs \<inter> fmdom' (nodes s) = {}"
    and c: "changes_only (set (ch this) \<union> set cs) {this} s s'"
    and m: "\<And>a. made_by s' a = (if a \<in> set cs then Some this else made_by s a)"
    and r: "released s' = released s"
    by (simp_all add: appended_def)
  show "all_own (ch(this := ch this @ cs)) s'"
    using w c by (rule all_own_single) (use o f in \<open>auto simp: owns_case\<close>)
  show "releases ch s s'"
    using r by (rule releases_same)
  have "foreign (ch(this := ch this @ cs)) s' \<subseteq> foreign ch s"
    using w f m by (rule foreign_single) simp
  then show "foreign (ch(this := ch this @ cs)) s' \<subseteq> foreign ch s \<union> {}"
    by simp
qed

lemma PushFront_step:
  assumes w: "all_own ch s" and p: "PushFront this v s = Inr s'"
  shows "\<exists>ch'. step ch s {} ch' s'"
proof -
  from p obtain d where d: "deques s this = Some d"
    by (auto simp: PushFront_def split: option.splits)
  from p obtain tmp s1 where a: "alloc this s = (Some tmp, s1)" and tr: "trivial_elem s"
    by (rule PushFront_Inr_alloc)
  note o = all_own_owns [OF w d]
  from PushFront_owns [OF o a tr, of v] p have o': "owns s' this (tmp # ch this)"
    and c: "changes_only (insert tmp (set (ch this))) {this} s s'"
    and m: "made_by s' = (made_by s)(tmp \<mapsto> this)" and r: "released s' = released s"
    by auto
  from alloc_Some(1) [OF a] have f: "tmp \<notin> fmdom' (nodes s)" by (simp add: fmdom'_notI)
  have "all_own (ch(this := tmp # ch this)) s'"
    using w c by (rule all_own_single) (use o' f in \<open>auto simp: owns_case\<close>)
  moreover have "releases ch s s'"
    using r by (rule releases_same)
  moreover have "foreign (ch(this := tmp # ch this)) s' \<subseteq> foreign ch s"
    using w by (rule foreign_single [where N = "{tmp}"]) (use f m in auto)
  ultimately have "step ch s {} (ch(this := tmp # ch this)) s'"
    by (simp add: step_def)
  then show ?thesis by blast
qed

lemma removed_step:
  assumes w: "all_own ch s" and o': "owns s' this as'"
    and c: "changes_only (set (ch this)) {this} s s'"
    and m: "made_by s' = made_by s"
    and r: "released s' = released s @ map (\<lambda>p. (p, made_by s p, this)) ps"
    and sub: "set as' \<subseteq> set (ch this)"
    and ps: "set ps \<subseteq> set (ch this)"
  shows "step ch s {} (ch(this := as')) s'"
proof (rule step_I)
  show "all_own (ch(this := as')) s'"
    using w c by (rule all_own_single) (use o' sub in \<open>auto simp: owns_case\<close>)
  show "releases ch s s'"
    using r ps by (rule releases_map)
  have "foreign (ch(this := as')) s' \<subseteq> foreign ch s"
    using w by (rule foreign_single [where N = "{}"]) (use m sub in auto)
  then show "foreign (ch(this := as')) s' \<subseteq> foreign ch s \<union> {}"
    by simp
qed

lemma PopBack_step:
  assumes w: "all_own ch s" and p: "PopBack this s = Inr s'"
  shows "\<exists>ch'. step ch s {} ch' s'"
proof -
  from p obtain d where d: "deques s this = Some d"
    by (auto simp: PopBack_def split: option.splits)
  note o = all_own_owns [OF w d]
  from o p obtain as t where ch: "ch this = as @ [t]"
    by (cases "ch this" rule: rev_cases) (auto simp: Pop_empty)
  from PopBack_owns [of s this as t] o p ch have "owns s' this as"
    "changes_only (set (ch this)) {this} s s'" "made_by s' = made_by s"
    "released s' = released s @ map (\<lambda>p. (p, made_by s p, this)) [t]"
    by (auto simp: insert_commute)
  from removed_step [OF w this] ch show ?thesis by auto
qed

lemma PopFront_step:
  assumes w: "all_own ch s" and p: "PopFront this s = Inr s'"
  shows "\<exists>ch'. step ch s {} ch' s'"
proof -
  from p obtain d where d: "deques s this = Some d"
    by (auto simp: PopFront_def split: option.splits)
  note o = all_own_owns [OF w d]
  from o p obtain h as where ch: "ch this = h # as"
    by (cases "ch this") (auto simp: Pop_empty)
  from PopFront_owns [of s this h as] o p ch have "owns s' this as"
    "changes_only (set (ch this)) {this} s s'" "made_by s' = made_by s"
    "released s' = released s @ map (\<lambda>p. (p, made_by s p, this)) [h]"
    by auto
  from removed_step [OF w this] ch show ?thesis by auto
qed

lemma Clear_step:
  assumes w: "all_own ch s" and d: "deques s this = Some d"
  shows "\<exists>s'. Clear this s = Inr s' \<and> step ch s {} (ch(this := [])) s' \<and>
           made_by s' = made_by s \<and>
           (\<forall>j. j \<noteq> this \<longrightarrow> deques s' j = deques s j) \<and> deques s' this \<noteq> None \<and>
           nodes s' = fmdrop_set (set (ch this)) (nodes s)"
proof -
  note o = all_own_owns [OF w d]
  from Clear_owns [OF o] obtain s' where c: "Clear this s = Inr s'" and o': "owns s' this []"
    and ch: "changes_only (set (ch this)) {this} s s'"
    and dm: "fmdom' (nodes s') = fmdom' (nodes s) - set (ch this)"
    and m: "made_by s' = made_by s"
    and r: "released s' = released s @ map (\<lambda>p. (p, made_by s p, this)) (rev (ch this))"
    by blast
  have "set (rev (ch this)) \<subseteq> set (ch this)" "set [] \<subseteq> set (ch this)" by simp_all
  note removed_step [OF w o' ch m r this(2) this(1)]
  moreover have "\<forall>j. j \<noteq> this \<longrightarrow> deques s' j = deques s j"
    using ch by (simp add: changes_only_def)
  moreover have "deques s' this \<noteq> None"
    using o' by (auto elim: owns_D)
  moreover have "nodes s' = fmdrop_set (set (ch this)) (nodes s)"
  proof (rule fmap_ext)
    fix a
    show "fmlookup (nodes s') a = fmlookup (fmdrop_set (set (ch this)) (nodes s)) a"
    proof (cases "a \<in> set (ch this)")
      case True
      with dm have "a \<notin> fmdom' (nodes s')" by simp
      with True show ?thesis by (simp add: fmdom'_notD)
    next
      case False
      with ch show ?thesis by (simp add: changes_only_def)
    qed
  qed
  ultimately show ?thesis using c m by blast
qed

lemma PushBack_all_step:
  assumes w: "all_own ch s" and d: "deques s this = Some d"
    and p: "PushBack_all this src s = Inr s'"
  shows "\<exists>ch'. step ch s {} ch' s' \<and> released s' = released s"
proof -
  from p obtain b where b: "deques s src = Some b"
    by (auto simp: PushBack_all_def cbegin_def split: option.splits)
  note ot = all_own_owns [OF w d] and os = all_own_owns [OF w b]
  show ?thesis
  proof (cases "set (ch src) \<inter> set (ch this) = {}")
    case True
    from PushBack_all_success [OF ot os True p] obtain cs
      where ap: "appended s this (ch this) (elems (nodes s) (ch src)) cs s'"
      by blast
    then have "released s' = released s" by (simp add: appended_def)
    with appended_step [OF w ap] show ?thesis by blast
  next
    case False
    with all_own_disjoint [OF w, of src this] have eq: "src = this" by auto
    with False obtain a as where ch: "ch this = a # as" by (cases "ch this") auto
    from ot d ch have "head d = Some a" by (auto elim!: owns_D)
    with p d eq have "PushBack_range this (Const_iterator (Some a)) s = Inr s'"
      by (simp add: PushBack_all_def cbegin_def)
    moreover have "PushBack_range this (Const_iterator (Some a)) s \<noteq> Inr s'"
      using ot refl by (rule PushBack_range_self) (simp add: ch)
    ultimately show ?thesis by simp
  qed
qed

lemma deque_t_move_step:
  assumes w: "all_own ch s" and m: "deque_t_move this src s = Inr s'"
  shows "\<exists>ch'. step ch s (set (ch src)) ch' s' \<and> released s' = released s"
proof -
  from m obtain d where d: "deques s src = Some d"
    and s': "s' = set_deque src \<lparr>head = None, tail = None, size_d = 0\<rparr>
                   (set_deque this \<lparr>head = head d, tail = tail d, size_d = size_d d\<rparr> s)"
    by (auto simp: deque_t_move_def split: option.splits)
  note os = all_own_owns [OF w d]
  have q: "released s' = released s" "made_by s' = made_by s"
    by (simp_all add: s' set_deque_def)
  have r: "releases ch s s'"
    using q(1) by (rule releases_same)
  show ?thesis
  proof (cases "this = src")
    case True
    have "changes_only {} {this} s s'"
      using True by (simp add: s' changes_only_def set_deque_def)
    moreover have "owns s' this []"
      using True by (simp add: s' owns_def set_deque_def)
    ultimately have "all_own (ch(this := [])) s'"
      using w by (intro all_own_single [where A = "{}"]) (simp_all add: owns_case)
    moreover have "foreign (ch(this := [])) s' \<subseteq> foreign ch s \<union> set (ch src)"
      using q(2) by (rule foreign_moved [where this = this]) auto
    ultimately show ?thesis using r q(1) by (auto simp: step_def)
  next
    case False
    from deque_t_move_owns [OF os False] m have o: "owns s' this (ch src)" "owns s' src []"
      by auto
    have c: "changes_only {} {this, src} s s'"
      by (simp add: s' changes_only_def set_deque_def)
    have "all_own (ch(this := ch src, src := [])) s'"
      using w False c _ o by (rule all_own_pair) auto
    moreover have "foreign (ch(this := ch src, src := [])) s' \<subseteq> foreign ch s \<union> set (ch src)"
      using q(2) by (rule foreign_moved [where this = this]) auto
    ultimately show ?thesis using r q(1) by (auto simp: step_def)
  qed
qed

lemma assign_move_alt:
  "assign_move this src s = (case Clear this s of Inl e \<Rightarrow> Inl e | Inr s1 \<Rightarrow> deque_t_move this src s1)"
  by (simp add: assign_move_def deque_t_move_def split: sum.splits)

lemma Clear_Inr_exists: "Clear this s = Inr s' \<Longrightarrow> \<exists>d. deques s this = Some d"
  by (subst (asm) Clear.simps) (auto split: option.splits)

lemma AddOtherDeque_move_self:
  assumes o: "owns s i as" and m: "AddOtherDeque_move i i s = Inr s'"
  shows "owns s' i []" "changes_only (set as) {i} s s'"
proof -
  from o obtain d where d: "deques s i = Some d" and hd: "head d = first as" and tl: "tail d = final as"
    by (rule owns_D)
  have "owns s' i [] \<and> changes_only (set as) {i} s s'"
  proof (cases "as = []")
    case True
    with tl have "tail d = None" by simp
    with m d show ?thesis
      by (auto simp: AddOtherDeque_move_def owns_def set_deque_def changes_only_def)
  next
    case False
    with hd tl have h: "head d = Some (hd as)" and t: "tail d = Some (last as)"
      by (simp_all add: first_hd final_last)
    from False have "hd as \<in> set as" "last as \<in> set as" by simp_all
    with m d h t show ?thesis
      by (auto simp: AddOtherDeque_move_def owns_def set_deque_def set_node_def changes_only_def
          store_next_def store_prev_def split: option.splits sum.splits)
  qed
  then show "owns s' i []" "changes_only (set as) {i} s s'" by simp_all
qed

lemma AddOtherDeque_move_quiet:
  assumes "AddOtherDeque_move this src s = Inr s'"
  shows "released s' = released s" "made_by s' = made_by s"
  using assms
  by (auto simp: AddOtherDeque_move_def store_next_def store_prev_def set_deque_def set_node_def
      split: option.splits sum.splits)

lemma AddOtherDeque_move_step:
  assumes w: "all_own ch s" and m: "AddOtherDeque_move this src s = Inr s'"
  shows "\<exists>ch'. step ch s (set (ch src)) ch' s'"
proof -
  from m obtain d b where d: "deques s this = Some d" and b: "deques s src = Some b"
    by (auto simp: AddOtherDeque_move_def split: option.splits)
  note ot = all_own_owns [OF w d] and os = all_own_owns [OF w b]
  note q = AddOtherDeque_move_quiet [OF m]
  have r: "releases ch s s'"
    using q(1) by (rule releases_same)
  show ?thesis
  proof (cases "this = src")
    case True
    from AddOtherDeque_move_self [OF ot] m True have "owns s' this []"
      "changes_only (set (ch this)) {this} s s'" by simp_all
    with w have "all_own (ch(this := [])) s'"
      by (intro all_own_single [where A = "set (ch this)"]) (simp_all add: owns_case)
    moreover have "foreign (ch(this := [])) s' \<subseteq> foreign ch s \<union> set (ch src)"
      using q(2) by (rule foreign_moved [where this = this]) auto
    ultimately show ?thesis using r by (auto simp: step_def)
  next
    case False
    from AddOtherDeque_move_owns [OF ot os False all_own_disjoint [OF w False]] m
    have o: "owns s' this (ch this @ ch src)" "owns s' src []"
      and c: "changes_only (set (ch this) \<union> set (ch src)) {this, src} s s'"
      by auto
    have "all_own (ch(this := ch this @ ch src, src := [])) s'"
      using w False c _ o by (rule all_own_pair) auto
    moreover have "foreign (ch(this := ch this @ ch src, src := [])) s' \<subseteq>
        foreign ch s \<union> set (ch src)"
      using q(2) by (rule foreign_moved [where this = this]) auto
    ultimately show ?thesis using r by (auto simp: step_def)
  qed
qed

lemma destroy_step:
  assumes w: "all_own ch s" and m: "destroy this s = Inr s'"
  shows "\<exists>ch'. step ch s {} ch' s'"
proof -
  from m obtain s1 where c: "Clear this s = Inr s1" and s': "s' = s1\<lparr>deques := (deques s1)(this := None)\<rparr>"
    by (auto simp: destroy_def split: sum.splits)
  from Clear_Inr_exists [OF c] obtain d where d: "deques s this = Some d" by blast
  from Clear_step [OF w d] c have st: "step ch s {} (ch(this := [])) s1"
    by auto
  then have w1: "all_own (ch(this := [])) s1" by (rule step_all_own)
  have "changes_only {} {this} s1 s'"
    by (simp add: s' changes_only_def)
  with w1 have "all_own ((ch(this := []))(this := [])) s'"
    by (rule all_own_single) (simp_all add: s')
  then have "all_own (ch(this := [])) s'" by simp
  moreover have "releases (ch(this := [])) s1 s'"
    by (rule releases_same) (simp add: s')
  moreover have "foreign (ch(this := [])) s' = foreign (ch(this := [])) s1"
    by (simp add: foreign_def s')
  ultimately have "step (ch(this := [])) s1 {} (ch(this := [])) s'"
    by (simp add: step_def)
  from step_then_quiet [OF st this] have "step ch s {} (ch(this := [])) s'"
    by (simp add: s')
  then show ?thesis by blast
qed

lemma reading_Inr: "reading s r = Inr s' \<Longrightarrow> s' = s"
  by (auto simp: reading_def split: sum.splits)

lemma reading_Inl: "reading s r = Inl (e, s') \<Longrightarrow> s' = s"
  by (auto simp: reading_def split: sum.splits)

lemma handed_over_none: "\<not> moves_chain c \<Longrightarrow> handed_over c ch = {}"
  by (cases c) simp_all

lemma exec_step:
  assumes w: "all_own ch s" and e: "exec c s = Inr s'"
  shows "\<exists>ch'. step ch s (handed_over c ch) ch' s'"
proof (cases c)
  case (New this)
  with e default_step [OF w, of this] show ?thesis by auto
next
  case (New_list this list)
  with e have p: "PushBack_each this list (deque_t_default this s) = Inr s'"
    by (simp add: deque_t_list_def)
  define ch0 where "ch0 = ch(this := [])"
  have st0: "step ch s {} ch0 (deque_t_default this s)"
    unfolding ch0_def by (rule default_step [OF w])
  then have w0: "all_own ch0 (deque_t_default this s)" by (rule step_all_own)
  have sub: "set (ch0 i) \<subseteq> set (ch i)" for i by (simp add: ch0_def)
  have "ch0 this = []" by (simp add: ch0_def)
  then have "owns (deque_t_default this s) this (ch0 this)"
    by (simp add: owns_def deque_t_default_def set_deque_def)
  from PushBack_each_success [OF this p] obtain cs
    where "appended (deque_t_default this s) this (ch0 this) list cs s'"
    by blast
  from quiet_then_step [OF st0 default_quiet sub appended_step [OF w0 this]] New_list
  show ?thesis by auto
next
  case (New_copy this deque)
  with e have p: "PushBack_all this deque (deque_t_default this s) = Inr s'"
    by (simp add: deque_t_copy_def)
  define ch0 where "ch0 = ch(this := [])"
  have st0: "step ch s {} ch0 (deque_t_default this s)"
    unfolding ch0_def by (rule default_step [OF w])
  then have w0: "all_own ch0 (deque_t_default this s)" by (rule step_all_own)
  have sub: "set (ch0 i) \<subseteq> set (ch i)" for i by (simp add: ch0_def)
  have "deques (deque_t_default this s) this = Some \<lparr>head = None, tail = None, size_d = 0\<rparr>"
    by (simp add: deque_t_default_def set_deque_def)
  from PushBack_all_step [OF w0 this p] obtain ch'
    where "step ch0 (deque_t_default this s) {} ch' s'" by blast
  from quiet_then_step [OF st0 default_quiet sub this] New_copy
  show ?thesis by auto
next
  case (New_move this deque)
  with e deque_t_move_step [OF w, of this deque s'] show ?thesis by auto
next
  case (Assign_copy this deque)
  with e obtain s1 where c: "Clear this s = Inr s1" and p: "PushBack_all this deque s1 = Inr s'"
    by (auto simp: assign_copy_def split: sum.splits)
  from Clear_Inr_exists [OF c] obtain d where d: "deques s this = Some d" by blast
  from Clear_step [OF w d] c have st1: "step ch s {} (ch(this := [])) s1"
    and "deques s1 this \<noteq> None"
    by auto
  then obtain d1 where "deques s1 this = Some d1" by auto
  from PushBack_all_step [OF step_all_own [OF st1] this p] obtain ch'
    where "step (ch(this := [])) s1 {} ch' s'" "released s' = released s1" by blast
  from step_then_quiet [OF st1 this] Assign_copy show ?thesis by auto
next
  case (Assign_move this deque)
  with e obtain s1 where c: "Clear this s = Inr s1" and p: "deque_t_move this deque s1 = Inr s'"
    by (auto simp: assign_move_alt split: sum.splits)
  from Clear_Inr_exists [OF c] obtain d where d: "deques s this = Some d" by blast
  from Clear_step [OF w d] c have st1: "step ch s {} (ch(this := [])) s1"
    by auto
  from deque_t_move_step [OF step_all_own [OF st1] p] obtain ch'
    where "step (ch(this := [])) s1 (set ((ch(this := [])) deque)) ch' s'"
      "released s' = released s1" by blast
  from step_then_quiet [OF st1 this]
  have "step ch s ({} \<union> set ((ch(this := [])) deque)) ch' s'" .
  then have "step ch s (set (ch deque)) ch' s'"
    by (rule step_mono) auto
  with Assign_move show ?thesis by auto
next
  case (Call_IsEmpty this)
  with e w show ?thesis by (auto dest!: reading_Inr intro: step_refl)
next
  case (Call_Size this)
  with e w show ?thesis by (auto dest!: reading_Inr intro: step_refl)
next
  case (Call_PeekHead this)
  with e w show ?thesis by (auto dest!: reading_Inr intro: step_refl)
next
  case (Call_GetFront this)
  with e w show ?thesis by (auto dest!: reading_Inr intro: step_refl)
next
  case (Call_PeekTail this)
  with e w show ?thesis by (auto dest!: reading_Inr intro: step_refl)
next
  case (Call_GetBack this)
  with e w show ?thesis by (auto dest!: reading_Inr intro: step_refl)
next
  case (Call_PushFront this v)
  with e PushFront_step [OF w, of this v s'] show ?thesis by simp
next
  case (Call_PushFront_move this v)
  with e PushFront_step [OF w, of this v s'] show ?thesis by (simp add: PushFront_move_eq)
next
  case (Call_PushBack this v)
  with e have p: "PushBack this v s = Inr s'" by simp
  then obtain d where d: "deques s this = Some d"
    by (auto simp: PushBack_def split: option.splits)
  from PushBack_success [OF all_own_owns [OF w d] p] obtain tmp
    where "appended s this (ch this) [v] [tmp] s'" by blast
  from appended_step [OF w this] Call_PushBack show ?thesis by auto
next
  case (Call_PushBack_move this v)
  with e have p: "PushBack this v s = Inr s'" by (simp add: PushBack_move_eq)
  then obtain d where d: "deques s this = Some d"
    by (auto simp: PushBack_def split: option.splits)
  from PushBack_success [OF all_own_owns [OF w d] p] obtain tmp
    where "appended s this (ch this) [v] [tmp] s'" by blast
  from appended_step [OF w this] Call_PushBack_move show ?thesis by auto
next
  case (Call_PopFront this)
  with e PopFront_step [OF w, of this s'] show ?thesis by simp
next
  case (Call_PopBack this)
  with e PopBack_step [OF w, of this s'] show ?thesis by simp
next
  case (Call_AddOtherDeque this deque)
  with e obtain d where d: "deques s this = Some d" and p: "PushBack_all this deque s = Inr s'"
    by (auto simp: AddOtherDeque_def split: option.splits)
  from PushBack_all_step [OF w d p] Call_AddOtherDeque show ?thesis by auto
next
  case (Call_AddOtherDeque_move this deque)
  with e AddOtherDeque_move_step [OF w, of this deque s'] show ?thesis by auto
next
  case (Call_Clear this)
  with e have c: "Clear this s = Inr s'" by simp
  from Clear_Inr_exists [OF c] obtain d where d: "deques s this = Some d" by blast
  from Clear_step [OF w d] c Call_Clear show ?thesis by auto
next
  case (Delete this)
  with e destroy_step [OF w, of this s'] show ?thesis by simp
qed

lemma exec_all_own:
  assumes w: "all_own ch s" and e: "exec c s = Inr s'"
  shows "\<exists>ch'. all_own ch' s' \<and> (\<not> moves_chain c \<longrightarrow> own_made ch s \<longrightarrow> own_made ch' s')"
proof -
  from exec_step [OF w e] obtain ch' where st: "step ch s (handed_over c ch) ch' s'"
    by blast
  then have "all_own ch' s'" by (rule step_all_own)
  moreover have "own_made ch' s'" if "\<not> moves_chain c" "own_made ch s"
    using st that by (simp add: handed_over_none step_own_made)
  ultimately show ?thesis by blast
qed

subsection \<open>A thrown exception leaves the store as it was\<close>

lemma store_not_catchable:
  "store_next p v s = Inl (e, s') \<Longrightarrow> \<not> catchable e"
  "store_prev p v s = Inl (e, s') \<Longrightarrow> \<not> catchable e"
  by (auto simp: store_next_def store_prev_def catchable_def split: option.splits)

lemma PushBack_not_catchable: "PushBack this v s = Inl (e, s') \<Longrightarrow> \<not> catchable e"
  by (auto simp: PushBack_def catchable_def store_next_def
      split: option.splits prod.splits sum.splits if_splits)

lemma PushFront_not_catchable: "PushFront this v s = Inl (e, s') \<Longrightarrow> \<not> catchable e"
  by (auto simp: PushFront_def catchable_def store_prev_def
      split: option.splits prod.splits sum.splits if_splits)

lemma PushBack_each_not_catchable: "PushBack_each this vs s = Inl (e, s') \<Longrightarrow> \<not> catchable e"
  by (induction vs arbitrary: s) (auto split: sum.splits dest: PushBack_not_catchable)

lemma const_iterator_not_catchable:
  assumes "\<not> const_iterator_eq it cend"
  shows "const_iterator_deref it s = Inl e \<Longrightarrow> \<not> catchable e"
    and "const_iterator_inc it s = Inl e \<Longrightarrow> \<not> catchable e"
proof -
  obtain p where it: "it = Const_iterator p" by (cases it)
  with assms obtain a where "p = Some a" by (cases p) (auto simp: cend_def)
  with it show "const_iterator_deref it s = Inl e \<Longrightarrow> \<not> catchable e"
    and "const_iterator_inc it s = Inl e \<Longrightarrow> \<not> catchable e"
    by (auto simp: catchable_def split: option.splits)
qed

lemma PushBack_range_not_catchable:
  "PushBack_range this it s = Inl (e, s') \<Longrightarrow> \<not> catchable e"
proof (induction this it s rule: PushBack_range.induct)
  case (1 this it s)
  note r = "1.prems" [unfolded PushBack_range.simps [of this it s]]
  show ?case
  proof (cases "const_iterator_eq it cend")
    case True
    with r show ?thesis by simp
  next
    case ne: False
    show ?thesis
    proof (cases "const_iterator_deref it s")
      case (Inl e0)
      with r ne have "e = e0" by simp
      with const_iterator_not_catchable(1) [OF ne Inl] show ?thesis by simp
    next
      case d: (Inr d)
      show ?thesis
      proof (cases "PushBack this d s")
        case (Inl x)
        with r ne d have "PushBack this d s = Inl (e, s')" by simp
        then show ?thesis by (rule PushBack_not_catchable)
      next
        case p: (Inr s1)
        show ?thesis
        proof (cases "const_iterator_inc it s1")
          case (Inl e1)
          with r ne d p have "e = e1" by simp
          with const_iterator_not_catchable(2) [OF ne Inl] show ?thesis by simp
        next
          case (Inr it')
          with r ne d p have "PushBack_range this it' s1 = Inl (e, s')" by simp
          with ne d p Inr show ?thesis by (rule "1.IH")
        qed
      qed
    qed
  qed
qed

lemma PushBack_all_not_catchable: "PushBack_all this src s = Inl (e, s') \<Longrightarrow> \<not> catchable e"
  by (auto simp: PushBack_all_def cbegin_def catchable_def
      split: sum.splits option.splits dest: PushBack_range_not_catchable)

lemma Pop_catchable:
  "PopFront this s = Inl (e, s') \<Longrightarrow> catchable e \<Longrightarrow> s' = s"
  "PopBack this s = Inl (e, s') \<Longrightarrow> catchable e \<Longrightarrow> s' = s"
  by (auto simp: PopFront_def PopBack_def catchable_def store_next_def store_prev_def
      split: option.splits sum.splits)

lemma Clear_not_catchable:
  assumes w: "all_own ch s" and c: "Clear this s = Inl (e, s')"
  shows "\<not> catchable e"
proof (cases "deques s this")
  case None
  with c show ?thesis by (subst (asm) Clear.simps) (simp add: catchable_def)
next
  case (Some d)
  from Clear_step [OF w Some] c show ?thesis by auto
qed

lemma exec_catchable:
  assumes w: "all_own ch s" and e: "exec c s = Inl (e, s')" and k: "catchable e"
  shows "s' = s"
proof (cases c)
  case (New this)
  with e show ?thesis by simp
next
  case (New_list this list)
  with e k show ?thesis by (auto simp: deque_t_list_def dest: PushBack_each_not_catchable)
next
  case (New_copy this deque)
  with e k show ?thesis by (auto simp: deque_t_copy_def dest: PushBack_all_not_catchable)
next
  case (New_move this deque)
  with e k show ?thesis by (auto simp: deque_t_move_def catchable_def split: option.splits)
next
  case (Assign_copy this deque)
  with e k Clear_not_catchable [OF w] show ?thesis
    by (auto simp: assign_copy_def split: sum.splits dest: PushBack_all_not_catchable)
next
  case (Assign_move this deque)
  with e k Clear_not_catchable [OF w] show ?thesis
    by (auto simp: assign_move_def catchable_def split: sum.splits option.splits)
next
  case (Call_IsEmpty this)
  with e show ?thesis by (auto dest: reading_Inl)
next
  case (Call_Size this)
  with e show ?thesis by (auto dest: reading_Inl)
next
  case (Call_PeekHead this)
  with e show ?thesis by (auto dest: reading_Inl)
next
  case (Call_GetFront this)
  with e show ?thesis by (auto dest: reading_Inl)
next
  case (Call_PeekTail this)
  with e show ?thesis by (auto dest: reading_Inl)
next
  case (Call_GetBack this)
  with e show ?thesis by (auto dest: reading_Inl)
next
  case (Call_PushFront this v)
  with e k show ?thesis by (auto dest: PushFront_not_catchable)
next
  case (Call_PushFront_move this v)
  with e k show ?thesis by (auto simp: PushFront_move_eq dest: PushFront_not_catchable)
next
  case (Call_PushBack this v)
  with e k show ?thesis by (auto dest: PushBack_not_catchable)
next
  case (Call_PushBack_move this v)
  with e k show ?thesis by (auto simp: PushBack_move_eq dest: PushBack_not_catchable)
next
  case (Call_PopFront this)
  with e k show ?thesis by (auto dest: Pop_catchable)
next
  case (Call_PopBack this)
  with e k show ?thesis by (auto dest: Pop_catchable)
next
  case (Call_AddOtherDeque this deque)
  with e k show ?thesis
    by (auto simp: AddOtherDeque_def catchable_def split: option.splits
        dest: PushBack_all_not_catchable)
next
  case (Call_AddOtherDeque_move this deque)
  with e k show ?thesis
    by (auto simp: AddOtherDeque_move_def catchable_def store_next_def store_prev_def
        split: option.splits sum.splits)
next
  case (Call_Clear this)
  with e k Clear_not_catchable [OF w] show ?thesis by auto
next
  case (Delete this)
  with e k Clear_not_catchable [OF w] show ?thesis
    by (auto simp: destroy_def split: sum.splits)
qed

lemma run_all_own:
  assumes "all_own ch s" and "run cs s = Some s'"
  shows "\<exists>ch'. all_own ch' s' \<and>
           (list_all (\<lambda>c. \<not> moves_chain c) cs \<longrightarrow> own_made ch s \<longrightarrow> own_made ch' s')"
  using assms
proof (induction cs arbitrary: s ch)
  case Nil
  then show ?case by auto
next
  case (Cons c cs)
  show ?case
  proof (cases "exec c s")
    case (Inl x)
    obtain e s1 where x: "x = (e, s1)" by (cases x)
    with Inl Cons.prems(2) have k: "catchable e" and r: "run cs s1 = Some s'"
      by (auto split: if_splits)
    from exec_catchable [OF Cons.prems(1) _ k] Inl x have "s1 = s" by simp
    with Cons.IH [OF Cons.prems(1)] r show ?thesis by auto
  next
    case (Inr s1)
    with Cons.prems(2) have r: "run cs s1 = Some s'" by simp
    from exec_all_own [OF Cons.prems(1) Inr] obtain ch1 where w1: "all_own ch1 s1"
      and m1: "\<not> moves_chain c \<longrightarrow> own_made ch s \<longrightarrow> own_made ch1 s1"
      by blast
    from Cons.IH [OF w1 r] m1 show ?thesis by auto
  qed
qed

lemma initial_all_own:
  "all_own (\<lambda>i. []) (initial triv pool)" "own_made (\<lambda>i. []) (initial triv pool)"
  by (simp_all add: all_own_def own_made_def initial_def)

subsection \<open>From ownership to the invariant\<close>

lemma follow_next_nth:
  "dseg h p as q \<Longrightarrow> k < length as \<Longrightarrow> follow next h k (hd as) = Some (as ! k)"
proof (induction as arbitrary: p k)
  case Nil
  then show ?case by simp
next
  case (Cons a as)
  show ?case
  proof (cases k)
    case 0
    then show ?thesis by simp
  next
    case (Suc k')
    with Cons.prems obtain b bs where as: "as = b # bs" by (cases as) auto
    with Cons.prems obtain n where "fmlookup h a = Some n" "next n = Some b" "dseg h (Some a) as q"
      by (auto split: option.splits)
    with Cons.IH [of "Some a" k'] Cons.prems Suc as show ?thesis by simp
  qed
qed

lemma follow_prev_nth:
  "dseg h p as q \<Longrightarrow> k < length as \<Longrightarrow>
   follow prev h k (last as) = Some (as ! (length as - 1 - k))"
proof (induction as arbitrary: q k rule: rev_induct)
  case Nil
  then show ?case by simp
next
  case (snoc a as)
  show ?case
  proof (cases k)
    case 0
    then show ?thesis by simp
  next
    case (Suc k')
    with snoc.prems obtain bs b where as: "as = bs @ [b]" by (cases as rule: rev_cases) auto
    from snoc.prems(1) have "dseg h p as (Some a) \<and>
        (\<exists>n. fmlookup h a = Some n \<and>
           prev n = (case final as of None \<Rightarrow> p | Some t \<Rightarrow> Some t) \<and> next n = q)"
      by (simp only: dseg_snoc)
    moreover have "final as = Some b" by (simp add: as)
    ultimately obtain n where n: "fmlookup h a = Some n" "prev n = Some b"
      and seg: "dseg h p as (Some a)"
      by auto
    from snoc.IH [OF seg, of k'] snoc.prems(2) Suc
    have "follow prev h k' (last as) = Some (as ! (length as - 1 - k'))" by simp
    moreover have "(as @ [a]) ! (length (as @ [a]) - 1 - k) = as ! (length as - 1 - k')"
      using Suc snoc.prems(2) as by (simp add: nth_append)
    ultimately show ?thesis
      using n Suc as by simp
  qed
qed

lemma owns_deque_inv:
  assumes o: "owns s i as" and l: "length as < 2 ^ 32"
  shows "deque_inv s i"
proof -
  from o obtain d where d: "deques s i = Some d" and dist: "distinct as"
    and seg: "dseg (nodes s) None as None" and hd: "head d = first as" and tl: "tail d = final as"
    and sz: "size_d d = of_nat (length as)"
    by (rule owns_D)
  from sz [symmetric] have u: "unat (size_d d) = length as"
    by (rule of_nat_inverse) (use l in simp)
  show ?thesis
  proof (cases "as = []")
    case True
    with d hd tl sz show ?thesis by (simp add: deque_inv_def)
  next
    case False
    then obtain a as' where c: "as = a # as'" by (cases as) auto
    from False obtain bs t where sn: "as = bs @ [t]" by (cases as rule: rev_cases) auto
    from False hd tl have h: "head d = Some (hd as)" and t: "tail d = Some (last as)"
      by (simp_all add: first_hd final_last)
    from False u have nz: "size_d d \<noteq> 0"
      by (metis length_0_conv unat_0)
    from seg c have p: "case fmlookup (nodes s) (hd as) of None \<Rightarrow> False | Some n \<Rightarrow> prev n = None"
      by (auto split: option.splits)
    from seg sn have n: "case fmlookup (nodes s) (last as) of None \<Rightarrow> False | Some n \<Rightarrow> next n = None"
      by (auto simp: dseg_snoc)
    have last: "last as = as ! (length as - 1)"
      using False by (simp add: last_conv_nth)
    have hd0: "hd as = as ! 0"
      using False by (simp add: hd_conv_nth)
    have f1: "follow next (nodes s) (length as - 1) (hd as) = Some (last as)"
      using follow_next_nth [OF seg, of "length as - 1"] False last by simp
    have f2: "follow next (nodes s) k (hd as) \<noteq> Some (last as)" if "k < length as - 1" for k
    proof -
      from that have "follow next (nodes s) k (hd as) = Some (as ! k)"
        by (intro follow_next_nth [OF seg]) simp
      moreover from that dist have "as ! k \<noteq> as ! (length as - 1)"
        by (simp add: nth_eq_iff_index_eq)
      ultimately show ?thesis using last by simp
    qed
    have b1: "follow prev (nodes s) (length as - 1) (last as) = Some (hd as)"
      using follow_prev_nth [OF seg, of "length as - 1"] False hd0 by simp
    have b2: "follow prev (nodes s) k (last as) \<noteq> Some (hd as)" if "k < length as - 1" for k
    proof -
      from that have "follow prev (nodes s) k (last as) = Some (as ! (length as - 1 - k))"
        by (intro follow_prev_nth [OF seg]) simp
      moreover have "as ! (length as - 1 - k) \<noteq> as ! 0"
      proof -
        from that False have "length as - 1 - k < length as" "0 < length as"
          "length as - 1 - k \<noteq> 0"
          by simp_all
        with dist show ?thesis by (simp only: nth_eq_iff_index_eq not_False_eq_True)
      qed
      ultimately show ?thesis using hd0 by simp
    qed
    from d h t nz p n f1 f2 b1 b2 u show ?thesis
      by (simp add: deque_inv_def)
  qed
qed

lemma owns_length_le: "owns s i as \<Longrightarrow> length as \<le> card (fmdom' (nodes s))"
proof -
  assume o: "owns s i as"
  then have "distinct as" by (rule owns_D)
  then have "length as = card (set as)" by (simp add: distinct_card)
  also have "\<dots> \<le> card (fmdom' (nodes s))"
    using owns_dom [OF o] by (intro card_mono) simp_all
  finally show ?thesis .
qed

section \<open>The example stores and programs\<close>

lemma two_nodes_owns: "owns two_nodes 0 [1, 2]" "owns two_nodes 1 []"
  by (simp_all add: owns_def two_nodes_def)

lemma three_and_two_owns:
  "owns three_and_two 0 [1, 2, 3]" "owns three_and_two 1 [4, 5]"
  "elems (nodes three_and_two) [1, 2, 3] = [1, 2, 3]" "elems (nodes three_and_two) [4, 5] = [6, 7]"
  by (simp_all add: owns_def three_and_two_def)




lemmas run_defs =
  initial_def deque_t_default_def deque_t_list_def deque_t_copy_def deque_t_move_def
  assign_copy_def assign_move_def destroy_def AddOtherDeque_def AddOtherDeque_move_def
  PushBack_all_def PushBack_range.simps Clear.simps cbegin_def cend_def
  PushFront_def PushFront_move_def PushBack_def PushBack_move_def PopFront_def PopBack_def
  alloc_def dealloc_def set_deque_def set_node_def store_next_def store_prev_def
  reading_def catchable_def IsEmpty_def Size_def PeekHead_def PeekTail_def GetFront_def GetBack_def

lemma many_pushes:
  assumes "distinct pool"
  shows "\<exists>s cs. run [New_list 0 (replicate (length pool) v)] (initial True pool) = Some s \<and>
           owns s 0 cs \<and> length cs = length pool"
proof -
  let ?s0 = "deque_t_default 0 (initial True pool)"
  have o: "owns ?s0 0 []"
    by (simp add: owns_def deque_t_default_def set_deque_def)
  have "stock ?s0 = card (set pool)"
    by (simp add: stock_def deque_t_default_def set_deque_def initial_def)
  with assms have k: "stock ?s0 = length pool"
    by (simp add: distinct_card)
  have "length (replicate (length pool) v) \<le> stock ?s0"
    unfolding k by simp
  have "trivial_elem ?s0"
    by (simp add: deque_t_default_def set_deque_def initial_def)
  with PushBack_each_owns [OF o \<open>length (replicate (length pool) v) \<le> stock ?s0\<close>] obtain s cs
    where p: "PushBack_each 0 (replicate (length pool) v) ?s0 = Inr s"
      and a: "appended ?s0 0 [] (replicate (length pool) v) cs s"
    by blast
  from a have "owns s 0 cs" "length cs = length pool" by (simp_all add: appended_def)
  moreover from p have "run [New_list 0 (replicate (length pool) v)] (initial True pool) = Some s"
    by (simp add: deque_t_list_def)
  ultimately show ?thesis by blast
qed

lemma length_upt_from_1: "length [1..<Suc n] = n"
  by simp

section \<open>Claims\<close>

text \<open>
  C1. When \<^verbatim>\<open>malloc\<close> has no block left, \<^verbatim>\<open>alloc\<close> returns null and each of the four
  insertion overloads writes \<^verbatim>\<open>tmp->value\<close> through that null pointer: the call does not
  end with \<open>OutOfMemory\<close> but in undefined behaviour.
\<close>

theorem push_without_memory:
  "fst (alloc 0 (two_nodes\<lparr>avail := []\<rparr>)) = None \<and>
   PushFront 0 30 (two_nodes\<lparr>avail := []\<rparr>) = Inl (NullDereference, two_nodes\<lparr>avail := []\<rparr>) \<and>
   PushFront_move 0 30 (two_nodes\<lparr>avail := []\<rparr>) = Inl (NullDereference, two_nodes\<lparr>avail := []\<rparr>) \<and>
   PushBack 0 30 (two_nodes\<lparr>avail := []\<rparr>) = Inl (NullDereference, two_nodes\<lparr>avail := []\<rparr>) \<and>
   PushBack_move 0 30 (two_nodes\<lparr>avail := []\<rparr>) = Inl (NullDereference, two_nodes\<lparr>avail := []\<rparr>)"
  by (simp add: PushFront_def PushFront_move_def PushBack_def PushBack_move_def alloc_def
      two_nodes_def)

text \<open>
  C2 (as amended). Start from the store without objects, for either kind of element type
  and with any list of blocks for \<^verbatim>\<open>malloc\<close> to hand out, and run any sequence of constructor calls, assignments, member
  function calls and destructor calls, going on after a caught \<open>EmptyContainer\<close>. In the
  store reached, if fewer than \<open>2^32\<close> node blocks are live, every existing deque
  satisfies the structural invariant: \<^verbatim>\<open>head\<close> is null iff \<^verbatim>\<open>tail\<close> is null iff
  \<^verbatim>\<open>size == 0\<close>; in a non-empty deque the head's \<^verbatim>\<open>prev\<close> and the tail's \<^verbatim>\<open>next\<close> are
  null and exactly \<^verbatim>\<open>size - 1\<close> steps lead from the head to the tail along \<^verbatim>\<open>next\<close> and
  from the tail to the head along \<^verbatim>\<open>prev\<close>.
\<close>

theorem reachable_deque_inv:
  assumes "run cs (initial triv pool) = Some s" and "card (fmdom' (nodes s)) < 2 ^ 32"
    and "deques s i = Some d"
  shows "deque_inv s i"
proof -
  from run_all_own [OF initial_all_own(1) assms(1)] obtain ch where "all_own ch s"
    by blast
  then have o: "owns s i (ch i)" using assms(3) by (rule all_own_owns)
  from owns_length_le [OF o] assms(2) have "length (ch i) < 2 ^ 32" by simp
  with o show ?thesis by (rule owns_deque_inv)
qed

theorem reachable_deque_inv_witness:
  "(case run demo (initial True [1, 2, 3, 4, 5, 6, 7, 8, 9, 10, 11, 12]) of
      None \<Rightarrow> False
    | Some s \<Rightarrow>
        card (fmdom' (nodes s)) < 2 ^ 32 \<and>
        deques s 0 = Some \<lparr>head = Some 5, tail = Some 10, size_d = 6\<rparr> \<and>
        deques s 1 = Some \<lparr>head = None, tail = None, size_d = 0\<rparr> \<and>
        deque_inv s 0 \<and> deque_inv s 1)"
proof -
  define s where "s = the (run demo (initial True [1, 2, 3, 4, 5, 6, 7, 8, 9, 10, 11, 12]))"
  have r: "run demo (initial True [1, 2, 3, 4, 5, 6, 7, 8, 9, 10, 11, 12]) = Some s"
    unfolding s_def by (simp add: demo_def run_defs)
  have "fmdom' (nodes s) = {5, 6, 7, 8, 9, 10}"
    unfolding s_def by (auto simp: demo_def run_defs)
  then have c: "card (fmdom' (nodes s)) < 2 ^ 32"
    by simp
  have d0: "deques s 0 = Some \<lparr>head = Some 5, tail = Some 10, size_d = 6\<rparr>"
    and d1: "deques s 1 = Some \<lparr>head = None, tail = None, size_d = 0\<rparr>"
    unfolding s_def by (simp_all add: demo_def run_defs)
  from reachable_deque_inv [OF r c d0] reachable_deque_inv [OF r c d1] r c d0 d1
  show ?thesis by simp
qed

text \<open>
  C2 as stated has no bound. \<^verbatim>\<open>size\<close> is an \<^verbatim>\<open>unsigned int\<close>: the deque constructed from
  an initializer list of \<open>2^32\<close> values has a non-null \<^verbatim>\<open>tail\<close> and \<^verbatim>\<open>size == 0\<close>.
\<close>

theorem size_wraps_around:
  "run [New_list 0 (replicate (2 ^ 32) (0::int))] (initial True [1..<Suc (2 ^ 32)]) \<noteq> None \<and>
   \<not> deque_inv
       (the (run [New_list 0 (replicate (2 ^ 32) (0::int))] (initial True [1..<Suc (2 ^ 32)]))) 0"
proof -
  have "distinct [1..<Suc (2 ^ 32)]"
    by (rule distinct_upt)
  from many_pushes [OF this, of "0::int"] obtain s cs
    where r: "run [New_list 0 (replicate (2 ^ 32) (0::int))] (initial True [1..<Suc (2 ^ 32)]) = Some s"
      and o: "owns s 0 cs" and l: "length cs = 2 ^ 32"
    unfolding length_upt_from_1 by blast
  from o obtain d where d: "deques s 0 = Some d" and tl: "tail d = final cs"
    and sz: "size_d d = of_nat (length cs)"
    by (rule owns_D)
  from l have "cs \<noteq> []" by auto
  with tl have "tail d \<noteq> None" by simp
  moreover from sz l have "size_d d = 0" by simp
  ultimately have "\<not> deque_inv s 0"
    using d by (simp add: deque_inv_def)
  then show ?thesis
    unfolding r by simp
qed

text \<open>
  C3 (as amended). Take a store reached from the store without objects by any sequence
  of calls, and one more call. With \<open>ch\<close> the chains of the deques before that call and
  \<open>ch'\<close> the chains after it (a store has one family of chains only, lemma
  \<open>all_own_unique\<close>): every \<^verbatim>\<open>dealloc\<close> of the call (from \<^verbatim>\<open>PopFront\<close>,
  \<^verbatim>\<open>PopBack\<close>, \<^verbatim>\<open>Clear\<close>, the \<^verbatim>\<open>Clear\<close> of an assignment, or the destructor) is for a block
  of the chain of the deque whose allocator instance is called, and is recorded with the
  instance that allocated the block; so it goes through the allocating instance exactly
  when the deque holding the block is the one that allocated it. A block is held after
  the call by a deque that did not allocate it only if it was so held before the call, or
  the call is a move construction, move assignment or move merge and the block is in the
  chain of its source. In a run without any of these three calls no block is ever held by
  a deque that did not allocate it, and every release so far went through the instance
  that had allocated the block.
\<close>

theorem released_by_holder:
  assumes "run cs (initial triv pool) = Some s" and "run [c] s = Some s'"
  shows "\<exists>ch ch'. all_own ch s \<and> all_own ch' s' \<and> releases ch s s' \<and>
           foreign ch' s' \<subseteq> foreign ch s \<union> handed_over c ch \<and>
           (list_all (\<lambda>c. \<not> moves_chain c) (cs @ [c]) \<longrightarrow>
              foreign ch' s' = {} \<and>
              list_all (\<lambda>e. fst (snd e) = Some (snd (snd e))) (released s'))"
proof -
  from run_all_own [OF initial_all_own(1) assms(1)] initial_all_own(2) [of triv pool]
  obtain ch where w: "all_own ch s"
    and om: "list_all (\<lambda>c. \<not> moves_chain c) cs \<longrightarrow> own_made ch s"
    by blast
  have "\<exists>ch'. step ch s (handed_over c ch) ch' s'"
  proof (cases "exec c s")
    case (Inr s1)
    with assms(2) have "s1 = s'" by simp
    with exec_step [OF w] Inr show ?thesis by simp
  next
    case (Inl x)
    obtain e s1 where x: "x = (e, s1)" by (cases x)
    with Inl assms(2) have k: "catchable e" and "s1 = s'" by (auto split: if_splits)
    with exec_catchable [OF w _ k] Inl x have "s' = s" by simp
    with w show ?thesis by (auto intro: step_refl)
  qed
  then obtain ch' where st: "step ch s (handed_over c ch) ch' s'" by blast
  have "foreign ch' s' = {} \<and> list_all (\<lambda>e. fst (snd e) = Some (snd (snd e))) (released s')"
    if "list_all (\<lambda>c. \<not> moves_chain c) (cs @ [c])"
  proof -
    from that om have "own_made ch s" "\<not> moves_chain c" by simp_all
    with st have "own_made ch' s'" by (simp add: handed_over_none step_own_made)
    then show ?thesis by (auto simp: own_made_def foreign_def list_all_iff)
  qed
  with w st show ?thesis unfolding step_def by blast
qed

theorem released_by_holder_witness:
  "(case run demo_merge (initial True [1, 2]) of
      None \<Rightarrow> False
    | Some s \<Rightarrow>
        (case run [Delete 1] s of
           None \<Rightarrow> False
         | Some s' \<Rightarrow>
             released s = [] \<and> released s' = [(1, Some 0, 1), (2, Some 1, 1)] \<and>
             (\<exists>ch ch'. all_own ch s \<and> all_own ch' s' \<and> releases ch s s' \<and>
                foreign ch' s' \<subseteq> foreign ch s \<union> handed_over (Delete 1) ch))) \<and>
   list_all (\<lambda>c. \<not> moves_chain c) (demo_copy @ [Call_Clear 0]) \<and>
   (case run demo_copy (initial True [1, 2, 3, 4, 5, 6, 7, 8, 9, 10, 11, 12, 13, 14]) of
      None \<Rightarrow> False
    | Some s \<Rightarrow>
        (case run [Call_Clear 0] s of
           None \<Rightarrow> False
         | Some s' \<Rightarrow>
             length (released s') = 14 \<and>
             list_all (\<lambda>e. fst (snd e) = Some (snd (snd e))) (released s')))"
proof -
  define s where "s = the (run demo_merge (initial True [1, 2]))"
  define s' where "s' = the (run [Delete 1] s)"
  have r: "run demo_merge (initial True [1, 2]) = Some s"
    unfolding s_def by (simp add: demo_merge_def run_defs)
  have r': "run [Delete 1] s = Some s'"
    unfolding s'_def s_def by (simp add: demo_merge_def run_defs)
  have l: "released s = []" "released s' = [(1, Some 0, 1), (2, Some 1, 1)]"
    unfolding s'_def s_def by (simp_all add: demo_merge_def run_defs)
  define t where "t = the (run demo_copy (initial True [1, 2, 3, 4, 5, 6, 7, 8, 9, 10, 11, 12, 13, 14]))"
  define t' where "t' = the (run [Call_Clear 0] t)"
  have q: "run demo_copy (initial True [1, 2, 3, 4, 5, 6, 7, 8, 9, 10, 11, 12, 13, 14]) = Some t"
    unfolding t_def by (simp add: demo_copy_def run_defs)
  have q': "run [Call_Clear 0] t = Some t'"
    unfolding t'_def t_def by (simp add: demo_copy_def run_defs)
  have m: "list_all (\<lambda>c. \<not> moves_chain c) (demo_copy @ [Call_Clear 0])"
    by (simp add: demo_copy_def)
  have n: "length (released t') = 14"
    unfolding t'_def t_def by (simp add: demo_copy_def run_defs)
  from released_by_holder [OF r r'] released_by_holder [OF q q'] r r' l q q' m n
  show ?thesis by auto
qed

text \<open>
  C3 as stated includes the nodes handed over by a move. A deque is built from one
  value, a second deque is move-constructed from it and destroyed: block 1, allocated by
  the allocator instance of object 0, is released through the instance of object 1.
\<close>

theorem moved_nodes_released_elsewhere:
  "run [New_list 0 [7::int], New_move 1 0, Delete 1] (initial True [1]) \<noteq> None \<and>
   released (the (run [New_list 0 [7::int], New_move 1 0, Delete 1] (initial True [1]))) =
     [(1, Some 0, 1)] \<and>
   \<not> list_all (\<lambda>e. fst (snd e) = Some (snd (snd e)))
       (released (the (run [New_list 0 [7::int], New_move 1 0, Delete 1] (initial True [1]))))"
  by (simp add: run_defs)

text \<open>
  C4 (as amended). For a receiver owning \<open>as\<close> and a different source owning \<open>bs\<close>,
  \<^verbatim>\<open>AddOtherDeque(std::move(source))\<close> returns with the receiver owning \<open>as @ bs\<close>, the
  values of the old receiver followed by those of the old source, its size the sum of
  the two sizes (as \<^verbatim>\<open>unsigned int\<close>), and the source empty. If the receiver was empty it
  takes the source's head, tail and size as they are and no node is written. If both were
  non-empty the receiver's old tail node gets the source's old head as \<^verbatim>\<open>next\<close>, that
  head gets the old tail as \<^verbatim>\<open>prev\<close>, and the receiver's tail becomes the source's old
  tail. If the receiver was non-empty and the source empty, nothing at all is written.
\<close>

theorem move_merge_splices:
  assumes "owns s this as" and "owns s src bs" and "this \<noteq> src" and "set as \<inter> set bs = {}"
  shows "\<exists>s' d b d'. AddOtherDeque_move this src s = Inr s' \<and>
     deques s this = Some d \<and> deques s src = Some b \<and> deques s' this = Some d' \<and>
     owns s' this (as @ bs) \<and>
     elems (nodes s') (as @ bs) = elems (nodes s) as @ elems (nodes s) bs \<and>
     size_d d' = size_d d + size_d b \<and>
     owns s' src [] \<and> deques s' src = Some \<lparr>head = None, tail = None, size_d = 0\<rparr> \<and>
     (as = [] \<longrightarrow> d' = b \<and> nodes s' = nodes s) \<and>
     (as \<noteq> [] \<and> bs \<noteq> [] \<longrightarrow>
        (\<exists>n m. tail d = Some (last as) \<and> head b = Some (hd bs) \<and>
           fmlookup (nodes s') (last as) = Some n \<and> next n = head b \<and>
           fmlookup (nodes s') (hd bs) = Some m \<and> prev m = tail d) \<and>
        head d' = head d \<and> tail d' = tail b) \<and>
     (as \<noteq> [] \<and> bs = [] \<longrightarrow> s' = s)"
proof -
  from assms(1) obtain d where d: "deques s this = Some d" and hda: "head d = first as"
    and tla: "tail d = final as" and sza: "size_d d = of_nat (length as)"
    by (rule owns_D)
  from assms(2) obtain b where b: "deques s src = Some b" and hdb: "head b = first bs"
    and tlb: "tail b = final bs" and szb: "size_d b = of_nat (length bs)"
    by (rule owns_D)
  from AddOtherDeque_move_owns [OF assms] obtain s'
    where run: "AddOtherDeque_move this src s = Inr s'"
      and oa: "owns s' this (as @ bs)" and ob: "owns s' src []"
      and vv: "\<And>a. map_option val (fmlookup (nodes s') a) = map_option val (fmlookup (nodes s) a)"
      and e: "as = [] \<longrightarrow> deques s' this = deques s src \<and> nodes s' = nodes s"
      and n: "bs = [] \<longrightarrow> s' = s"
    by blast
  from oa obtain d' where d': "deques s' this = Some d'" and seg: "dseg (nodes s') None (as @ bs) None"
    and hd': "head d' = first (as @ bs)" and tl': "tail d' = final (as @ bs)"
    and sz': "size_d d' = of_nat (length (as @ bs))"
    by (rule owns_D)
  have "elems (nodes s') (as @ bs) = elems (nodes s) (as @ bs)"
    by (rule elems_frame) (rule vv)
  then have "elems (nodes s') (as @ bs) = elems (nodes s) as @ elems (nodes s) bs"
    by (simp only: elems_append)
  moreover have "size_d d' = size_d d + size_d b"
    using sz' sza szb by simp
  moreover have "as = [] \<longrightarrow> d' = b \<and> nodes s' = nodes s"
    using e d' b by simp
  moreover have "as \<noteq> [] \<and> bs \<noteq> [] \<longrightarrow>
        (\<exists>n m. tail d = Some (last as) \<and> head b = Some (hd bs) \<and>
           fmlookup (nodes s') (last as) = Some n \<and> next n = head b \<and>
           fmlookup (nodes s') (hd bs) = Some m \<and> prev m = tail d) \<and>
        head d' = head d \<and> tail d' = tail b"
    using dseg_link [OF seg] hda tla hdb tlb hd' tl'
    by (auto simp: first_hd final_last)
  ultimately show ?thesis
    using run d b d' oa ob n owns_empty_deque [OF ob] by (auto simp del: elems_append)
qed

theorem move_merge_splices_witness:
  "owns three_and_two 0 [1, 2, 3] \<and> owns three_and_two 1 [4, 5] \<and>
   (case AddOtherDeque_move 0 1 three_and_two of
      Inl e \<Rightarrow> False
    | Inr s' \<Rightarrow>
        owns s' 0 [1, 2, 3, 4, 5] \<and> elems (nodes s') [1, 2, 3, 4, 5] = [1, 2, 3, 6, 7] \<and>
        map_option size_d (deques s' 0) = Some 5 \<and> owns s' 1 [])"
proof -
  have a: "owns three_and_two 0 [1, 2, 3]" and b: "owns three_and_two 1 [4, 5]"
    by (rule three_and_two_owns)+
  have ne: "(0::obj) \<noteq> 1" and dj: "set [1, 2, 3 :: addr] \<inter> set [4, 5] = {}"
    by simp_all
  from move_merge_splices [OF a b ne dj] three_and_two_owns(3,4) a b
  show ?thesis
    by (auto simp: three_and_two_def)
qed

text \<open>
  C4 as stated says that whenever the receiver is non-empty its tail becomes the source's
  old tail. With the receiver holding 10, 20 and an empty source the merge changes
  nothing: the receiver's tail still points to block 2, while the source's old tail is
  null.
\<close>

theorem move_merge_empty_source:
  "owns two_nodes 0 [1, 2] \<and> owns two_nodes 1 [] \<and>
   AddOtherDeque_move 0 1 two_nodes = Inr two_nodes \<and>
   map_option tail (deques two_nodes 0) = Some (Some 2) \<and>
   map_option tail (deques two_nodes 1) = Some None \<and>
   map_option tail (deques (result_state (AddOtherDeque_move 0 1 two_nodes)) 0) \<noteq>
     map_option tail (deques two_nodes 1)"
  by (simp add: owns_def AddOtherDeque_move_def two_nodes_def)




text \<open>
  C6. For a source owning \<open>bs\<close> and a different destination object, the move
  constructor gives the destination the source's head, tail and size, so that it owns
  \<open>bs\<close> with the same values, and leaves the source an empty deque (\<^verbatim>\<open>IsEmpty\<close> true);
  no node is written or released. Move assignment to a destination owning \<open>as\<close> does the
  same after \<^verbatim>\<open>Clear()\<close>, which releases the blocks \<open>as\<close>, back to front, through the
  destination's own allocator instance.
\<close>

theorem move_transfers_chain:
  assumes "owns s src bs" and "this \<noteq> src"
  shows "(\<exists>s' d. deque_t_move this src s = Inr s' \<and> deques s src = Some d \<and>
            deques s' this = Some d \<and> owns s' this bs \<and>
            elems (nodes s') bs = elems (nodes s) bs \<and>
            owns s' src [] \<and> IsEmpty src s' = Inr True \<and>
            nodes s' = nodes s \<and> released s' = released s) \<and>
         (owns s this as \<and> set as \<inter> set bs = {} \<longrightarrow>
           (\<exists>s' d. assign_move this src s = Inr s' \<and> deques s src = Some d \<and>
              deques s' this = Some d \<and> owns s' this bs \<and>
              elems (nodes s') bs = elems (nodes s) bs \<and>
              owns s' src [] \<and> IsEmpty src s' = Inr True \<and>
              fmdom' (nodes s') = fmdom' (nodes s) - set as \<and>
              released s' = released s @ map (\<lambda>p. (p, made_by s p, this)) (rev as)))"
proof
  from deque_t_move_owns [OF assms] obtain s' d where m: "deque_t_move this src s = Inr s'"
    and d: "deques s src = Some d" "deques s' this = Some d" and o: "owns s' this bs" "owns s' src []"
    and s': "s' = set_deque src \<lparr>head = None, tail = None, size_d = 0\<rparr> (set_deque this d s)"
    by blast
  from s' have "nodes s' = nodes s" "released s' = released s"
    by (simp_all add: set_deque_def)
  with m d o IsEmpty_empty [OF o(2)]
  show "\<exists>s' d. deque_t_move this src s = Inr s' \<and> deques s src = Some d \<and>
            deques s' this = Some d \<and> owns s' this bs \<and>
            elems (nodes s') bs = elems (nodes s) bs \<and>
            owns s' src [] \<and> IsEmpty src s' = Inr True \<and>
            nodes s' = nodes s \<and> released s' = released s"
    by auto
next
  show "owns s this as \<and> set as \<inter> set bs = {} \<longrightarrow>
           (\<exists>s' d. assign_move this src s = Inr s' \<and> deques s src = Some d \<and>
              deques s' this = Some d \<and> owns s' this bs \<and>
              elems (nodes s') bs = elems (nodes s) bs \<and>
              owns s' src [] \<and> IsEmpty src s' = Inr True \<and>
              fmdom' (nodes s') = fmdom' (nodes s) - set as \<and>
              released s' = released s @ map (\<lambda>p. (p, made_by s p, this)) (rev as))"
  proof
    assume a: "owns s this as \<and> set as \<inter> set bs = {}"
    from assign_move_owns [OF _ assms(1,2), of as] a obtain s' d
      where "assign_move this src s = Inr s'" "deques s src = Some d"
        "deques s' this = Some d" "owns s' this bs" "owns s' src []"
        "elems (nodes s') bs = elems (nodes s) bs"
        "fmdom' (nodes s') = fmdom' (nodes s) - set as"
        "released s' = released s @ map (\<lambda>p. (p, made_by s p, this)) (rev as)"
      by blast
    with IsEmpty_empty [of s' src]
    show "\<exists>s' d. assign_move this src s = Inr s' \<and> deques s src = Some d \<and>
              deques s' this = Some d \<and> owns s' this bs \<and>
              elems (nodes s') bs = elems (nodes s) bs \<and>
              owns s' src [] \<and> IsEmpty src s' = Inr True \<and>
              fmdom' (nodes s') = fmdom' (nodes s) - set as \<and>
              released s' = released s @ map (\<lambda>p. (p, made_by s p, this)) (rev as)"
      by auto
  qed
qed

theorem move_transfers_chain_witness:
  "owns three_and_two 1 [4, 5] \<and> owns three_and_two 0 [1, 2, 3] \<and>
   (case deque_t_move 2 1 three_and_two of
      Inl e \<Rightarrow> False
    | Inr s' \<Rightarrow>
        owns s' 2 [4, 5] \<and> elems (nodes s') [4, 5] = [6, 7] \<and> owns s' 1 [] \<and>
        IsEmpty 1 s' = Inr True) \<and>
   (case assign_move 0 1 three_and_two of
      Inl e \<Rightarrow> False
    | Inr s' \<Rightarrow>
        owns s' 0 [4, 5] \<and> elems (nodes s') [4, 5] = [6, 7] \<and> owns s' 1 [] \<and>
        IsEmpty 1 s' = Inr True \<and>
        released s' = [(3, Some 0, 0), (2, Some 0, 0), (1, Some 0, 0)])"
proof -
  have a: "owns three_and_two 0 [1, 2, 3]" and b: "owns three_and_two 1 [4, 5]"
    by (rule three_and_two_owns)+
  have dj: "set [1, 2, 3 :: addr] \<inter> set [4, 5] = {}"
    by simp
  have m: "made_by three_and_two 1 = Some 0" "made_by three_and_two 2 = Some 0"
    "made_by three_and_two 3 = Some 0" "released three_and_two = []"
    by (simp_all add: three_and_two_def)
  have "(2::obj) \<noteq> 1" by simp
  from move_transfers_chain [OF b this] obtain s1
    where 1: "deque_t_move 2 1 three_and_two = Inr s1" "owns s1 2 [4, 5]"
      "elems (nodes s1) [4, 5] = elems (nodes three_and_two) [4, 5]" "owns s1 1 []"
      "IsEmpty 1 s1 = Inr True"
    by blast
  have "(0::obj) \<noteq> 1" by simp
  from move_transfers_chain [OF b this, of "[1, 2, 3]"] a dj obtain s2
    where 2: "assign_move 0 1 three_and_two = Inr s2" "owns s2 0 [4, 5]"
      "elems (nodes s2) [4, 5] = elems (nodes three_and_two) [4, 5]" "owns s2 1 []"
      "IsEmpty 1 s2 = Inr True"
      "released s2 = released three_and_two @
         map (\<lambda>p. (p, made_by three_and_two p, 0)) (rev [1, 2, 3])"
    by blast
  from 1 2 a b m three_and_two_owns(4) show ?thesis
    by simp
qed

text \<open>
  C7. On a deque that owns the chain \<open>as\<close>: \<^verbatim>\<open>IsEmpty\<close> holds exactly when the chain is
  empty; on the empty deque \<^verbatim>\<open>PopFront\<close> and \<^verbatim>\<open>PopBack\<close> throw \<open>EmptyContainer\<close> with
  the store as it was, and \<^verbatim>\<open>PeekHead\<close>, \<^verbatim>\<open>GetFront\<close>, \<^verbatim>\<open>PeekTail\<close>, \<^verbatim>\<open>GetBack\<close> throw
  \<open>EmptyContainer\<close>; on a non-empty deque the two removals succeed and the four
  inspections return the first and the last value. The inspections are functions of the
  store that return no store: they cannot change it.
\<close>

theorem empty_container_iff_empty:
  assumes "owns s this as"
  shows "IsEmpty this s = Inr (as = []) \<and>
    (as = [] \<longrightarrow>
       PopFront this s = Inl (EmptyContainer, s) \<and> PopBack this s = Inl (EmptyContainer, s) \<and>
       PeekHead this s = Inl EmptyContainer \<and> GetFront this s = Inl EmptyContainer \<and>
       PeekTail this s = Inl EmptyContainer \<and> GetBack this s = Inl EmptyContainer) \<and>
    (as \<noteq> [] \<longrightarrow>
       (\<exists>s'. PopFront this s = Inr s' \<and> owns s' this (tl as)) \<and>
       (\<exists>s'. PopBack this s = Inr s' \<and> owns s' this (butlast as)) \<and>
       PeekHead this s = Inr (hd (elems (nodes s) as)) \<and>
       GetFront this s = Inr (hd (elems (nodes s) as)) \<and>
       PeekTail this s = Inr (last (elems (nodes s) as)) \<and>
       GetBack this s = Inr (last (elems (nodes s) as)))"
proof (cases "as = []")
  case True
  with assms Pop_empty [of s this] Peek_owns [of s this as] IsEmpty_owns [of s this as]
  show ?thesis by (simp add: Get_eq_Peek)
next
  case False
  then obtain h bs where c: "as = h # bs" by (cases as) auto
  from False obtain cs t where sn: "as = cs @ [t]" by (cases as rule: rev_cases) auto
  from assms have seg: "dseg (nodes s) None as None" by (rule owns_D)
  from seg c obtain n where "fmlookup (nodes s) h = Some n" by (auto split: option.splits)
  with c have e: "elems (nodes s) as = val n # elems (nodes s) bs" by simp
  from PopFront_owns [of s this h bs] assms c
  have 1: "\<exists>s'. PopFront this s = Inr s' \<and> owns s' this (tl as)" by auto
  from PopBack_owns [of s this cs t] assms sn
  have 2: "\<exists>s'. PopBack this s = Inr s' \<and> owns s' this (butlast as)" by auto
  from False 1 2 e Peek_owns [OF assms] IsEmpty_owns [OF assms]
  show ?thesis by (simp add: Get_eq_Peek)
qed

theorem empty_container_iff_empty_witness:
  "owns two_nodes 1 [] \<and> owns two_nodes 0 [1, 2] \<and>
   IsEmpty 1 two_nodes = Inr True \<and> IsEmpty 0 two_nodes = Inr False \<and>
   PopFront 1 two_nodes = Inl (EmptyContainer, two_nodes) \<and>
   PopBack 1 two_nodes = Inl (EmptyContainer, two_nodes) \<and>
   PeekHead 1 two_nodes = Inl EmptyContainer \<and> GetFront 1 two_nodes = Inl EmptyContainer \<and>
   PeekTail 1 two_nodes = Inl EmptyContainer \<and> GetBack 1 two_nodes = Inl EmptyContainer \<and>
   (\<exists>s'. PopFront 0 two_nodes = Inr s' \<and> owns s' 0 [2]) \<and>
   (\<exists>s'. PopBack 0 two_nodes = Inr s' \<and> owns s' 0 [1]) \<and>
   PeekHead 0 two_nodes = Inr 10 \<and> GetFront 0 two_nodes = Inr 10 \<and>
   PeekTail 0 two_nodes = Inr 20 \<and> GetBack 0 two_nodes = Inr 20"
proof -
  have e: "owns two_nodes 1 []" and o: "owns two_nodes 0 [1, 2]"
    by (simp_all add: owns_def two_nodes_def)
  have v: "elems (nodes two_nodes) [1, 2] = [10, 20]"
    by (simp add: two_nodes_def)
  from empty_container_iff_empty [OF e] empty_container_iff_empty [OF o] e o v
  show ?thesis by simp
qed

text \<open>
  C8. For each of the three iterator classes, dereferencing an iterator whose \<^verbatim>\<open>curNode\<close>
  is null fails with \<open>InvalidIterator\<close>, and so does advancing it with the prefix or the
  postfix \<^verbatim>\<open>++\<close>. On an iterator whose \<^verbatim>\<open>curNode\<close> points to a live node none of the
  three fails: dereferencing yields the node's value, advancing moves to the node's
  \<^verbatim>\<open>next\<close> (\<^verbatim>\<open>prev\<close> for the reverse iterator), and the postfix form returns the old
  position.
\<close>

theorem iterator_end_invalid:
  fixes s :: "'a state"
  shows "iterator_deref (Iterator None) s = Inl InvalidIterator \<and>
     iterator_inc (Iterator None) s = Inl InvalidIterator \<and>
     iterator_post_inc (Iterator None) s = Inl InvalidIterator \<and>
     const_iterator_deref (Const_iterator None) s = Inl InvalidIterator \<and>
     const_iterator_inc (Const_iterator None) s = Inl InvalidIterator \<and>
     const_iterator_post_inc (Const_iterator None) s = Inl InvalidIterator \<and>
     reverse_iterator_deref (Reverse_iterator None) s = Inl InvalidIterator \<and>
     reverse_iterator_inc (Reverse_iterator None) s = Inl InvalidIterator \<and>
     reverse_iterator_post_inc (Reverse_iterator None) s = Inl InvalidIterator \<and>
     (fmlookup (nodes s) a = Some n \<longrightarrow>
        iterator_deref (Iterator (Some a)) s = Inr (val n) \<and>
        iterator_inc (Iterator (Some a)) s = Inr (Iterator (next n)) \<and>
        iterator_post_inc (Iterator (Some a)) s = Inr (Iterator (Some a), Iterator (next n)) \<and>
        const_iterator_deref (Const_iterator (Some a)) s = Inr (val n) \<and>
        const_iterator_inc (Const_iterator (Some a)) s = Inr (Const_iterator (next n)) \<and>
        const_iterator_post_inc (Const_iterator (Some a)) s =
          Inr (Const_iterator (Some a), Const_iterator (next n)) \<and>
        reverse_iterator_deref (Reverse_iterator (Some a)) s = Inr (val n) \<and>
        reverse_iterator_inc (Reverse_iterator (Some a)) s = Inr (Reverse_iterator (prev n)) \<and>
        reverse_iterator_post_inc (Reverse_iterator (Some a)) s =
          Inr (Reverse_iterator (Some a), Reverse_iterator (prev n)))"
  by simp

theorem iterator_end_invalid_witness:
  "fmlookup (nodes two_nodes) 2 = Some \<lparr>val = 20, prev = Some 1, next = None\<rparr> \<and>
   iterator_deref (Iterator (Some 2)) two_nodes = Inr 20 \<and>
   iterator_inc (Iterator (Some 2)) two_nodes = Inr (Iterator None) \<and>
   iterator_post_inc (Iterator (Some 2)) two_nodes = Inr (Iterator (Some 2), Iterator None) \<and>
   const_iterator_deref (Const_iterator (Some 2)) two_nodes = Inr 20 \<and>
   const_iterator_inc (Const_iterator (Some 2)) two_nodes = Inr (Const_iterator None) \<and>
   const_iterator_post_inc (Const_iterator (Some 2)) two_nodes =
     Inr (Const_iterator (Some 2), Const_iterator None) \<and>
   reverse_iterator_deref (Reverse_iterator (Some 2)) two_nodes = Inr 20 \<and>
   reverse_iterator_inc (Reverse_iterator (Some 2)) two_nodes = Inr (Reverse_iterator (Some 1)) \<and>
   reverse_iterator_post_inc (Reverse_iterator (Some 2)) two_nodes =
     Inr (Reverse_iterator (Some 2), Reverse_iterator (Some 1))"
proof -
  have live: "fmlookup (nodes two_nodes) 2 = Some \<lparr>val = 20, prev = Some 1, next = None\<rparr>"
    by (simp add: two_nodes_def)
  from iterator_end_invalid [of two_nodes 2 "\<lparr>val = 20, prev = Some 1, next = None\<rparr>"] live
  show ?thesis by simp
qed







end
